theory Spec2Isabelle
  imports Complex_Main "HOL-Library.Char_ord"
begin

section \<open>Values and errors\<close>

text \<open>
  A JavaScript string is modelled as a \<^typ>\<open>string\<close>: one \<^typ>\<open>char\<close> per UTF-16 code unit
  (code units below 256), so \<^const>\<open>length\<close> is the source's \<open>str.length\<close>.  The grammar of
  \<open>parse\<close> tells apart only ASCII digits, \<open>-\<close>, \<open>.\<close>, the space and ASCII letters; every other
  code unit behaves like any character that the pattern rejects.

  A JavaScript number is modelled as an exact rational, or \<open>NaN\<close>.  IEEE doubles agree with
  the rationals wherever operands and results are exactly representable, which covers the
  multipliers (all integers below \<open>2^53\<close>) and every literal scenario below; rounding of longer
  decimals is not modelled.  \<open>ProtoMember k\<close> is the member \<open>k\<close> that every object literal
  inherits from \<open>Object.prototype\<close> (a function or an object, never a number nor \<open>undefined\<close>).
\<close>

datatype val = Num rat | NaN | ProtoMember string

text \<open>
  The two \<open>throw new Error(...)\<close> of \<open>parse\<close> and the one of \<open>format\<close>.  The message text is
  not modelled; the error carries the values that the source interpolates into it.
\<close>

datatype error =
    InvalidArgument string
  | UnknownUnit string string
  | FormatInvalid

section \<open>Constants\<close>

definition s :: rat where "s = 1000"
definition m :: rat where "m = s * 60"
definition h :: rat where "h = m * 60"
definition d :: rat where "d = h * 24"
definition w :: rat where "w = d * 7"
definition y :: rat where "y = d * (36525 / 100)"
definition mo :: rat where "mo = y / 12"

section \<open>Unit spellings\<close>

text \<open>
  The type declarations \<open>Years\<close>, \<open>Months\<close>, \<dots>, \<open>Milliseconds\<close> and \<open>Unit\<close> of the source: the
  spellings of each unit, in lower case.
\<close>

definition Years :: "string list" where
  "Years = [''years'', ''year'', ''yrs'', ''yr'', ''y'']"

definition Months :: "string list" where
  "Months = [''months'', ''month'', ''mo'']"

definition Weeks :: "string list" where
  "Weeks = [''weeks'', ''week'', ''w'']"

definition Days :: "string list" where
  "Days = [''days'', ''day'', ''d'']"

definition Hours :: "string list" where
  "Hours = [''hours'', ''hour'', ''hrs'', ''hr'', ''h'']"

definition Minutes :: "string list" where
  "Minutes = [''minutes'', ''minute'', ''mins'', ''min'', ''m'']"

definition Seconds :: "string list" where
  "Seconds = [''seconds'', ''second'', ''secs'', ''sec'', ''s'']"

definition Milliseconds :: "string list" where
  "Milliseconds = [''milliseconds'', ''millisecond'', ''msecs'', ''msec'', ''ms'']"

definition Unit :: "string list list" where
  "Unit = [Years, Months, Weeks, Days, Hours, Minutes, Seconds, Milliseconds]"

section \<open>Object literals used as lookup tables\<close>

text \<open>
  \<open>commonValues\<close> and \<open>unitMultipliers\<close> are plain object literals, read with \<open>table[key]\<close>.
  Such a read finds the literal's own properties first and then walks the prototype chain,
  so the names of the members of \<open>Object.prototype\<close> are found too.
\<close>

definition objectPrototypeKeys :: "string list" where
  "objectPrototypeKeys =
    [''constructor'', ''hasOwnProperty'', ''isPrototypeOf'', ''propertyIsEnumerable'',
     ''toLocaleString'', ''toString'', ''valueOf'', ''__proto__'',
     ''__defineGetter__'', ''__defineSetter__'', ''__lookupGetter__'', ''__lookupSetter__'']"

definition objGet :: "(string \<times> rat) list \<Rightarrow> string \<Rightarrow> val option" where
  "objGet table key =
    (case map_of table key of
       Some v \<Rightarrow> Some (Num v)
     | None \<Rightarrow> if key \<in> set objectPrototypeKeys then Some (ProtoMember key) else None)"

definition commonValues :: "(string \<times> rat) list" where
  "commonValues =
    [(''1s'', 1000), (''2s'', 2000), (''5s'', 5000), (''10s'', 10000), (''15s'', 15000),
     (''30s'', 30000),
     (''1m'', 60000), (''2m'', 120000), (''5m'', 300000), (''10m'', 600000), (''15m'', 900000),
     (''30m'', 1800000),
     (''1h'', 3600000), (''2h'', 7200000), (''3h'', 10800000), (''6h'', 21600000),
     (''12h'', 43200000),
     (''1d'', 86400000), (''2d'', 172800000), (''7d'', 604800000),
     (''1w'', 604800000), (''2w'', 1209600000),
     (''1mo'', 2629800000), (''1y'', 31557600000),
     (''1 s'', 1000), (''1 m'', 60000), (''1 h'', 3600000), (''1 d'', 86400000),
     (''1 w'', 604800000),
     (''100'', 100), (''1000'', 1000), (''5000'', 5000)]"

definition unitMultipliers :: "(string \<times> rat) list" where
  "unitMultipliers =
    [(''years'', y), (''year'', y), (''yrs'', y), (''yr'', y), (''y'', y),
     (''months'', mo), (''month'', mo), (''mo'', mo),
     (''weeks'', w), (''week'', w), (''w'', w),
     (''days'', d), (''day'', d), (''d'', d),
     (''hours'', h), (''hour'', h), (''hrs'', h), (''hr'', h), (''h'', h),
     (''minutes'', m), (''minute'', m), (''mins'', m), (''min'', m), (''m'', m),
     (''seconds'', s), (''second'', s), (''secs'', s), (''sec'', s), (''s'', s),
     (''milliseconds'', 1), (''millisecond'', 1), (''msecs'', 1), (''msec'', 1), (''ms'', 1)]"

section \<open>The pre-compiled pattern\<close>

text \<open>
  Regular expressions as far as \<open>parseRegex\<close> needs them.  The pattern carries the \<open>i\<close> flag,
  so a literal character is compared after canonicalisation; without the \<open>u\<close> flag this maps
  the ASCII letters to upper case and never identifies a non-ASCII code unit with an ASCII one.
  \<open>toLowerCase\<close> is applied to the captured unit only, which holds ASCII letters; both
  conversions are modelled on the ASCII letters and leave every other character as it is.
\<close>

datatype rx =
    Eps
  | Ch char
  | Digit
  | Cat rx rx
  | Alt rx rx
  | Opt rx
  | Star rx
  | Plus rx
  | Group string rx

definition isDigit :: "char \<Rightarrow> bool" where
  "isDigit c = (CHR ''0'' \<le> c \<and> c \<le> CHR ''9'')"

definition toUpperCase_char :: "char \<Rightarrow> char" where
  "toUpperCase_char c =
    (if CHR ''a'' \<le> c \<and> c \<le> CHR ''z'' then char_of (of_char c - (32::nat)) else c)"

definition toLowerCase_char :: "char \<Rightarrow> char" where
  "toLowerCase_char c =
    (if CHR ''A'' \<le> c \<and> c \<le> CHR ''Z'' then char_of (of_char c + (32::nat)) else c)"

definition toLowerCase :: "string \<Rightarrow> string" where
  "toLowerCase str = map toLowerCase_char str"

text \<open>
  A matcher state is the rest of the input and the named groups captured so far.  \<open>rx_match\<close>
  returns the states after every way of matching a prefix, in the order in which a
  backtracking matcher tries them: the left alternative first, the optional part present
  first, the longest repetition first.  An iteration of a repetition that consumes nothing
  is not tried again, hence no repetition iterates more often than the input is long.
\<close>

type_synonym mstate = "string \<times> (string \<times> string) list"

fun star :: "(mstate \<Rightarrow> mstate list) \<Rightarrow> nat \<Rightarrow> mstate \<Rightarrow> mstate list" where
  "star f 0 st = [st]"
| "star f (Suc n) st =
     concat (map (star f n) (filter (\<lambda>st'. length (fst st') < length (fst st)) (f st))) @ [st]"

fun rx_match :: "rx \<Rightarrow> mstate \<Rightarrow> mstate list" where
  "rx_match Eps st = [st]"
| "rx_match (Ch c) (str, gs) =
     (case str of
        [] \<Rightarrow> []
      | x # xs \<Rightarrow> if toUpperCase_char x = toUpperCase_char c then [(xs, gs)] else [])"
| "rx_match Digit (str, gs) =
     (case str of [] \<Rightarrow> [] | x # xs \<Rightarrow> if isDigit x then [(xs, gs)] else [])"
| "rx_match (Cat a b) st = concat (map (rx_match b) (rx_match a st))"
| "rx_match (Alt a b) st = rx_match a st @ rx_match b st"
| "rx_match (Opt a) st = rx_match a st @ [st]"
| "rx_match (Star a) st = star (rx_match a) (length (fst st)) st"
| "rx_match (Plus a) st =
     concat (map (\<lambda>st'. star (rx_match a) (length (fst st')) st') (rx_match a st))"
| "rx_match (Group name a) (str, gs) =
     map (\<lambda>(rest, gs'). (rest, (name, take (length str - length rest) str) # gs'))
       (rx_match a (str, gs))"

text \<open>A word of the pattern, character by character.\<close>

fun lit :: "string \<Rightarrow> rx" where
  "lit [] = Eps"
| "lit [c] = Ch c"
| "lit (c # cs) = Cat (Ch c) (lit cs)"

text \<open>
  \<^verbatim>\<open>/^(?<value>-?\d*\.?\d+) *(?<unit>milliseconds?|msecs?|ms|seconds?|secs?|s|minutes?|mins?|m|hours?|hrs?|h|days?|d|weeks?|w|months?|mo|years?|yrs?|y)?$/i\<close>
\<close>

definition valueRx :: rx where
  "valueRx =
    Cat (Opt (Ch CHR ''-'')) (Cat (Star Digit) (Cat (Opt (Ch CHR ''.'')) (Plus Digit)))"

definition unitRx :: rx where
  "unitRx =
    Alt (Cat (lit ''millisecond'') (Opt (Ch CHR ''s'')))
   (Alt (Cat (lit ''msec'') (Opt (Ch CHR ''s'')))
   (Alt (lit ''ms'')
   (Alt (Cat (lit ''second'') (Opt (Ch CHR ''s'')))
   (Alt (Cat (lit ''sec'') (Opt (Ch CHR ''s'')))
   (Alt (lit ''s'')
   (Alt (Cat (lit ''minute'') (Opt (Ch CHR ''s'')))
   (Alt (Cat (lit ''min'') (Opt (Ch CHR ''s'')))
   (Alt (lit ''m'')
   (Alt (Cat (lit ''hour'') (Opt (Ch CHR ''s'')))
   (Alt (Cat (lit ''hr'') (Opt (Ch CHR ''s'')))
   (Alt (lit ''h'')
   (Alt (Cat (lit ''day'') (Opt (Ch CHR ''s'')))
   (Alt (lit ''d'')
   (Alt (Cat (lit ''week'') (Opt (Ch CHR ''s'')))
   (Alt (lit ''w'')
   (Alt (Cat (lit ''month'') (Opt (Ch CHR ''s'')))
   (Alt (lit ''mo'')
   (Alt (Cat (lit ''year'') (Opt (Ch CHR ''s'')))
   (Alt (Cat (lit ''yr'') (Opt (Ch CHR ''s'')))
        (lit ''y''))))))))))))))))))))"

definition parseRegex :: rx where
  "parseRegex =
    Cat (Group ''value'' valueRx)
      (Cat (Star (Ch CHR '' '')) (Opt (Group ''unit'' unitRx)))"

text \<open>
  \<open>parseRegex.exec(str)\<close>.  The pattern starts with \<open>^\<close> and ends with \<open>$\<close> and has no \<open>m\<close>
  flag: a match starts at index 0 and ends at the end of the input.  The result is the named
  groups of the first such match in backtracking order, or \<open>None\<close> for \<open>null\<close>; a group that
  did not take part has no entry (it reads as \<open>undefined\<close>).
\<close>

definition regex_exec :: "rx \<Rightarrow> string \<Rightarrow> (string \<times> string) list option" where
  "regex_exec r str =
    (case filter (\<lambda>st. fst st = []) (rx_match r (str, [])) of
       [] \<Rightarrow> None
     | st # _ \<Rightarrow> Some (snd st))"

definition parseRegex_exec :: "string \<Rightarrow> (string \<times> string) list option" where
  "parseRegex_exec str = regex_exec parseRegex str"

section \<open>Numbers\<close>

text \<open>
  \<open>parseFloat\<close> on the strings that reach it: an optional minus sign, decimal digits, and an
  optional point followed by decimal digits; \<open>NaN\<close> when there is no digit at all.  It reads
  the longest such prefix.  Leading white space, a plus sign, exponents and \<open>Infinity\<close> cannot
  occur in a captured \<open>value\<close> group and are left out.
\<close>

definition digitValue :: "char \<Rightarrow> rat" where
  "digitValue c = of_nat (of_char c - 48)"

definition digitsValue :: "string \<Rightarrow> rat" where
  "digitsValue ds = foldl (\<lambda>acc c. 10 * acc + digitValue c) 0 ds"

definition parseFloat :: "string \<Rightarrow> val" where
  "parseFloat str =
    (let neg = (case str of [] \<Rightarrow> False | c # _ \<Rightarrow> c = CHR ''-'');
         body = (if neg then tl str else str);
         ip = takeWhile isDigit body;
         rest = dropWhile isDigit body;
         fp = (case rest of [] \<Rightarrow> [] | c # cs \<Rightarrow> if c = CHR ''.'' then takeWhile isDigit cs else [])
     in if ip = [] \<and> fp = [] then NaN
        else Num ((if neg then - 1 else 1) *
                  (digitsValue ip + digitsValue fp / 10 ^ length fp)))"

text \<open>\<open>n * multiplier\<close>: anything that is not a number converts to \<open>NaN\<close>.\<close>

fun times_val :: "val \<Rightarrow> val \<Rightarrow> val" where
  "times_val (Num a) (Num b) = Num (a * b)"
| "times_val _ _ = NaN"

section \<open>The LRU cache\<close>

text \<open>
  A JavaScript \<open>Map\<close> iterates in insertion order: an association list with the oldest key
  first.  \<open>set\<close> on a resident key replaces the value in place; on a new key it appends.
  No stored value is \<open>undefined\<close>, so \<open>get\<close> tells a hit from a miss by its result.
\<close>

type_synonym jsmap = "(string \<times> val) list"

definition Map_get :: "jsmap \<Rightarrow> string \<Rightarrow> val option" where
  "Map_get mp key = map_of mp key"

definition Map_has :: "jsmap \<Rightarrow> string \<Rightarrow> bool" where
  "Map_has mp key = (key \<in> set (map fst mp))"

definition Map_delete :: "string \<Rightarrow> jsmap \<Rightarrow> jsmap" where
  "Map_delete key mp = filter (\<lambda>e. fst e \<noteq> key) mp"

fun Map_set :: "string \<Rightarrow> val \<Rightarrow> jsmap \<Rightarrow> jsmap" where
  "Map_set key v [] = [(key, v)]"
| "Map_set key v (e # mp) = (if fst e = key then (key, v) # mp else e # Map_set key v mp)"

record LRUCache =
  cache :: jsmap
  maxSize :: nat

definition LRUCache_new :: "nat \<Rightarrow> LRUCache" where
  "LRUCache_new n = \<lparr>cache = [], maxSize = n\<rparr>"

definition LRUCache_get :: "string \<Rightarrow> LRUCache \<Rightarrow> val option \<times> LRUCache" where
  "LRUCache_get key c =
    (case Map_get (cache c) key of
       None \<Rightarrow> (None, c)
     | Some v \<Rightarrow> (Some v, c\<lparr>cache := Map_set key v (Map_delete key (cache c))\<rparr>))"

text \<open>
  \<open>this.cache.keys().next().value\<close> is the oldest key, or \<open>undefined\<close> on an empty map, and
  deleting \<open>undefined\<close> removes nothing.
\<close>

definition LRUCache_set :: "string \<Rightarrow> val \<Rightarrow> LRUCache \<Rightarrow> LRUCache" where
  "LRUCache_set key v c =
    (let mp = (if Map_has (cache c) key then Map_delete key (cache c)
               else if length (cache c) \<ge> maxSize c then
                 (case cache c of [] \<Rightarrow> [] | e # _ \<Rightarrow> Map_delete (fst e) (cache c))
               else cache c)
     in c\<lparr>cache := Map_set key v mp\<rparr>)"

definition parseCache :: LRUCache where
  "parseCache = LRUCache_new 100"

section \<open>parse\<close>

text \<open>
  \<open>parse\<close> reads and writes the module-level \<open>parseCache\<close>; the model passes the cache in and
  returns it.  A \<open>throw\<close> is \<open>Inl\<close>.  The test \<open>typeof str !== 'string'\<close> is decided by the
  argument's type.
\<close>

text \<open>
  From the destructuring of \<open>match.groups\<close> to \<open>n * multiplier\<close>: the number the matched
  groups stand for, or the unknown-unit error.  \<open>parseFloat(undefined)\<close> is \<open>NaN\<close>.
\<close>

definition parseGroups :: "(string \<times> string) list \<Rightarrow> string \<Rightarrow> error + val" where
  "parseGroups groups str =
    (let n = (case map_of groups ''value'' of None \<Rightarrow> NaN | Some v \<Rightarrow> parseFloat v);
         unit = (case map_of groups ''unit'' of None \<Rightarrow> ''ms'' | Some u \<Rightarrow> u);
         matchUnit = toLowerCase unit
     in (case objGet unitMultipliers matchUnit of
           None \<Rightarrow> Inl (UnknownUnit matchUnit str)
         | Some multiplier \<Rightarrow> Inr (times_val n multiplier)))"

definition parse :: "string \<Rightarrow> LRUCache \<Rightarrow> (error + val) \<times> LRUCache" where
  "parse str pc =
    (if length str = 0 \<or> length str > 100 then (Inl (InvalidArgument str), pc)
     else
       (case LRUCache_get str pc of
          (Some cached, pc1) \<Rightarrow> (Inr cached, pc1)
        | (None, pc1) \<Rightarrow>
            (case objGet commonValues str of
               Some commonValue \<Rightarrow> (Inr commonValue, LRUCache_set str commonValue pc1)
             | None \<Rightarrow>
                 (case parseRegex_exec str of
                    None \<Rightarrow> (Inr NaN, pc1)
                  | Some groups \<Rightarrow>
                      (case parseGroups groups str of
                         Inl err \<Rightarrow> (Inl err, pc1)
                       | Inr result \<Rightarrow> (Inr result, LRUCache_set str result pc1))))))"

text \<open>The cache after a sequence of calls of \<open>parse\<close>, whatever each call returned or threw.\<close>

fun parse_all :: "string list \<Rightarrow> LRUCache \<Rightarrow> LRUCache" where
  "parse_all [] pc = pc"
| "parse_all (str # strs) pc = parse_all strs (snd (parse str pc))"

section \<open>format\<close>

text \<open>
  The documentation of \<open>format\<close> asks for an integer number of milliseconds.  The argument is
  an integer or a non-finite number (\<open>NaN\<close>, \<open>Infinity\<close>, \<open>-Infinity\<close>); fractional
  milliseconds are outside the model.  \<open>Math.round\<close> rounds halves towards plus infinity.  An
  integer is printed in decimal digits, as JavaScript prints integers below \<open>10^21\<close>.
\<close>

datatype jsnumber = Integer int | NonFinite

record Options =
  long :: "bool option"

definition Math_round :: "rat \<Rightarrow> int" where
  "Math_round x = \<lfloor>x + 1 / 2\<rfloor>"

fun natToString :: "nat \<Rightarrow> string" where
  "natToString n =
    (if n < 10 then [char_of (48 + n)]
     else natToString (n div 10) @ [char_of (48 + n mod 10)])"

definition numberToString :: "int \<Rightarrow> string" where
  "numberToString i = (if i < 0 then ''-'' @ natToString (nat (- i)) else natToString (nat i))"

definition plural :: "int \<Rightarrow> rat \<Rightarrow> rat \<Rightarrow> string \<Rightarrow> string" where
  "plural ms msAbs n name =
    (let isPlural = (msAbs \<ge> n * (15 / 10))
     in numberToString (Math_round (of_int ms / n)) @ '' '' @ name @
        (if isPlural then ''s'' else []))"

definition fmtShort :: "int \<Rightarrow> string" where
  "fmtShort ms =
    (let msAbs = \<bar>of_int ms\<bar>
     in if msAbs \<ge> y then numberToString (Math_round (of_int ms / y)) @ ''y''
        else if msAbs \<ge> mo then numberToString (Math_round (of_int ms / mo)) @ ''mo''
        else if msAbs \<ge> w then numberToString (Math_round (of_int ms / w)) @ ''w''
        else if msAbs \<ge> d then numberToString (Math_round (of_int ms / d)) @ ''d''
        else if msAbs \<ge> h then numberToString (Math_round (of_int ms / h)) @ ''h''
        else if msAbs \<ge> m then numberToString (Math_round (of_int ms / m)) @ ''m''
        else if msAbs \<ge> s then numberToString (Math_round (of_int ms / s)) @ ''s''
        else numberToString ms @ ''ms'')"

definition fmtLong :: "int \<Rightarrow> string" where
  "fmtLong ms =
    (let msAbs = \<bar>of_int ms\<bar>
     in if msAbs \<ge> y then plural ms msAbs y ''year''
        else if msAbs \<ge> mo then plural ms msAbs mo ''month''
        else if msAbs \<ge> w then plural ms msAbs w ''week''
        else if msAbs \<ge> d then plural ms msAbs d ''day''
        else if msAbs \<ge> h then plural ms msAbs h ''hour''
        else if msAbs \<ge> m then plural ms msAbs m ''minute''
        else if msAbs \<ge> s then plural ms msAbs s ''second''
        else numberToString ms @ '' ms'')"

text \<open>\<open>options?.long\<close> is falsy when \<open>options\<close> or its field \<open>long\<close> is absent.\<close>

definition format :: "jsnumber \<Rightarrow> Options option \<Rightarrow> error + string" where
  "format ms options =
    (case ms of
       NonFinite \<Rightarrow> Inl FormatInvalid
     | Integer i \<Rightarrow>
         (if (case options of None \<Rightarrow> False
              | Some opts \<Rightarrow> (case long opts of None \<Rightarrow> False | Some b \<Rightarrow> b))
          then Inr (fmtLong i) else Inr (fmtShort i)))"

section \<open>Notions used in the proofs\<close>

text \<open>
  None of the definitions of this section is part of the program.  They state invariants
  of the cache and give the pattern a declarative reading (the language of a regular
  expression) and a deterministic one (\<open>exec_det\<close>), both proved equal to what the
  backtracking matcher computes.
\<close>

text \<open>A well-formed cache: distinct keys, within its capacity, capacity positive.\<close>

definition cache_wf :: "LRUCache \<Rightarrow> bool" where
  "cache_wf c = (distinct (map fst (cache c)) \<and> length (cache c) \<le> maxSize c \<and> 0 < maxSize c)"

text \<open>Expressions without a capture group, and the language of an expression.\<close>

fun group_free :: "rx \<Rightarrow> bool" where
  "group_free Eps = True"
| "group_free (Ch c) = True"
| "group_free Digit = True"
| "group_free (Cat a b) = (group_free a \<and> group_free b)"
| "group_free (Alt a b) = (group_free a \<and> group_free b)"
| "group_free (Opt a) = group_free a"
| "group_free (Star a) = group_free a"
| "group_free (Plus a) = group_free a"
| "group_free (Group name a) = False"

definition iter :: "string set \<Rightarrow> string set" where
  "iter L = {concat ws | ws. set ws \<subseteq> L}"

fun lang :: "rx \<Rightarrow> string set" where
  "lang Eps = {[]}"
| "lang (Ch c) = {[x] | x. toUpperCase_char x = toUpperCase_char c}"
| "lang Digit = {[x] | x. isDigit x}"
| "lang (Cat a b) = {u @ v | u v. u \<in> lang a \<and> v \<in> lang b}"
| "lang (Alt a b) = lang a \<union> lang b"
| "lang (Opt a) = insert [] (lang a)"
| "lang (Star a) = iter (lang a)"
| "lang (Plus a) = {u @ v | u v. u \<in> lang a \<and> v \<in> iter (lang a)}"
| "lang (Group name a) = lang a"

text \<open>The matcher states reached from \<open>st\<close> by consuming a word of \<open>L\<close>.\<close>

definition rests :: "string set \<Rightarrow> mstate \<Rightarrow> mstate set" where
  "rests L st = {(rest, snd st) | rest. \<exists>u \<in> L. fst st = u @ rest}"

text \<open>Equality of words up to the case of ASCII letters.\<close>

definition ci_eq :: "string \<Rightarrow> string \<Rightarrow> bool" where
  "ci_eq a b = (map toUpperCase_char a = map toUpperCase_char b)"

definition unitNames :: "string list" where
  "unitNames = map fst unitMultipliers"

text \<open>
  The words \<open>-?\d*\.?\d+\<close>, read from left to right, and the split of an input into
  magnitude, spaces and unit that the pattern admits.
\<close>

definition isValue :: "string \<Rightarrow> bool" where
  "isValue v =
    (let body = (case v of [] \<Rightarrow> [] | c # cs \<Rightarrow> if c = CHR ''-'' then cs else v);
         rest = dropWhile isDigit body
     in body \<noteq> [] \<and>
        (case rest of [] \<Rightarrow> True | c # fp \<Rightarrow> c = CHR ''.'' \<and> fp \<noteq> [] \<and> list_all isDigit fp))"

definition isBody :: "string \<Rightarrow> bool" where
  "isBody b = (b \<noteq> [] \<and>
     (case dropWhile isDigit b of [] \<Rightarrow> True
      | c # fp \<Rightarrow> c = CHR ''.'' \<and> fp \<noteq> [] \<and> list_all isDigit fp))"

definition isValueChar :: "char \<Rightarrow> bool" where
  "isValueChar c = (isDigit c \<or> c = CHR ''-'' \<or> c = CHR ''.'')"

definition isSpace :: "char \<Rightarrow> bool" where
  "isSpace c = (c = CHR '' '')"

definition exec_det :: "string \<Rightarrow> (string \<times> string) list option" where
  "exec_det str =
    (let v = takeWhile isValueChar str;
         u = dropWhile isSpace (dropWhile isValueChar str)
     in if isValue v \<and> (u = [] \<or> toLowerCase u \<in> set unitNames)
        then Some ((if u = [] then [] else [(''unit'', u)]) @ [(''value'', v)])
        else None)"

text \<open>
  What \<open>parse\<close> computes past the cache and the fast-path table, from \<open>parseRegex.exec\<close>
  to \<open>n * multiplier\<close>, without the insertion into the cache.
\<close>

definition grammarPath :: "string \<Rightarrow> error + val" where
  "grammarPath str =
    (case parseRegex_exec str of
       None \<Rightarrow> Inr NaN
     | Some groups \<Rightarrow> parseGroups groups str)"

text \<open>The negation of the length test that opens \<open>parse\<close>.\<close>

definition validLength :: "string \<Rightarrow> bool" where
  "validLength str = (\<not> (length str = 0 \<or> length str > 100))"

text \<open>
  Every resident entry holds a key that \<open>parse\<close> can insert and the value that \<open>parse\<close>
  returns for that key on the empty cache.
\<close>

definition entries_ok :: "LRUCache \<Rightarrow> bool" where
  "entries_ok c =
    (\<forall>e \<in> set (cache c). validLength (fst e) \<and> fst (parse (fst e) parseCache) = Inr (snd e) \<and>
        (objGet commonValues (fst e) \<noteq> None \<or> parseRegex_exec (fst e) \<noteq> None))"

text \<open>Any sequence of calls of the two methods of the cache.\<close>

datatype cacheOp = Get string | Set string val

fun apply_ops :: "cacheOp list \<Rightarrow> LRUCache \<Rightarrow> LRUCache" where
  "apply_ops [] c = c"
| "apply_ops (Get key # ops) c = apply_ops ops (snd (LRUCache_get key c))"
| "apply_ops (Set key v # ops) c = apply_ops ops (LRUCache_set key v c)"

section \<open>The cache operations\<close>

lemma Map_set_fresh: "key \<notin> fst ` set mp \<Longrightarrow> Map_set key v mp = mp @ [(key, v)]"
  by (induction mp) auto

lemma Map_delete_Nil [simp]: "Map_delete key [] = []"
  by (simp add: Map_delete_def)

lemma Map_delete_Cons [simp]:
  "Map_delete key (e # mp) = (if fst e = key then Map_delete key mp else e # Map_delete key mp)"
  by (simp add: Map_delete_def)

lemma Map_delete_keys: "map fst (Map_delete key mp) = filter (\<lambda>k. k \<noteq> key) (map fst mp)"
  by (induction mp) auto

lemma Map_delete_absent: "key \<notin> fst ` set mp \<Longrightarrow> Map_delete key mp = mp"
  by (induction mp) auto

lemma Map_delete_not_in: "key \<notin> fst ` set (Map_delete key mp)"
  by (induction mp) auto

lemma Map_delete_hd:
  "distinct (map fst (e # mp)) \<Longrightarrow> Map_delete (fst e) (e # mp) = mp"
  by (simp add: Map_delete_absent)

lemma Map_delete_length_present:
  "distinct (map fst mp) \<Longrightarrow> key \<in> fst ` set mp \<Longrightarrow> Suc (length (Map_delete key mp)) = length mp"
  by (induction mp) (auto simp: Map_delete_absent)

lemma Map_get_Some_key: "Map_get mp key = Some v \<Longrightarrow> key \<in> fst ` set mp"
  unfolding Map_get_def by (metis domI dom_map_of_conv_image_fst)

lemma Map_get_None_key: "Map_get mp key = None \<longleftrightarrow> key \<notin> fst ` set mp"
  unfolding Map_get_def by (simp add: map_of_eq_None_iff)

lemma LRUCache_get_miss: "Map_get (cache c) key = None \<Longrightarrow> LRUCache_get key c = (None, c)"
  by (simp add: LRUCache_get_def)

lemma LRUCache_get_hit:
  "Map_get (cache c) key = Some v \<Longrightarrow>
   LRUCache_get key c = (Some v, c\<lparr>cache := Map_delete key (cache c) @ [(key, v)]\<rparr>)"
  by (simp add: LRUCache_get_def Map_set_fresh Map_delete_not_in)

lemma LRUCache_set_resident:
  "key \<in> fst ` set (cache c) \<Longrightarrow>
   LRUCache_set key v c = c\<lparr>cache := Map_delete key (cache c) @ [(key, v)]\<rparr>"
  by (simp add: LRUCache_set_def Map_has_def Map_set_fresh Map_delete_not_in)

lemma LRUCache_set_room:
  "key \<notin> fst ` set (cache c) \<Longrightarrow> length (cache c) < maxSize c \<Longrightarrow>
   LRUCache_set key v c = c\<lparr>cache := cache c @ [(key, v)]\<rparr>"
  by (simp add: LRUCache_set_def Map_has_def Map_set_fresh)

lemma LRUCache_set_full:
  assumes "key \<notin> fst ` set (cache c)" "maxSize c \<le> length (cache c)"
    "distinct (map fst (cache c))"
  shows "LRUCache_set key v c = c\<lparr>cache := tl (cache c) @ [(key, v)]\<rparr>"
proof (cases "cache c")
  case Nil
  with assms show ?thesis by (simp add: LRUCache_set_def Map_has_def)
next
  case (Cons e mp)
  with assms have "Map_delete (fst e) (cache c) = mp"
    using Map_delete_hd[of e mp] by simp
  moreover from Cons assms have "key \<notin> fst ` set mp" by auto
  ultimately show ?thesis using assms Cons
    by (simp add: LRUCache_set_def Map_has_def Map_set_fresh)
qed

lemma distinct_delete_snoc:
  "distinct (map fst mp) \<Longrightarrow> distinct (map fst (Map_delete key mp @ [(key, v)]))"
  by (simp add: Map_delete_keys)

lemma length_Map_delete_le: "length (Map_delete key mp) \<le> length mp"
  by (simp add: Map_delete_def)

lemma cache_wf_get: assumes "cache_wf c" shows "cache_wf (snd (LRUCache_get key c))"
proof (cases "Map_get (cache c) key")
  case None
  then show ?thesis using assms by (simp add: LRUCache_get_miss)
next
  case (Some v)
  then have "key \<in> fst ` set (cache c)" by (rule Map_get_Some_key)
  with assms have "Suc (length (Map_delete key (cache c))) = length (cache c)"
    by (simp add: cache_wf_def Map_delete_length_present)
  with assms Some show ?thesis
    by (simp add: LRUCache_get_hit cache_wf_def Map_delete_keys)
qed

lemma cache_wf_set: assumes "cache_wf c" shows "cache_wf (LRUCache_set key v c)"
proof (cases "key \<in> fst ` set (cache c)")
  case True
  with assms have "Suc (length (Map_delete key (cache c))) = length (cache c)"
    by (simp add: cache_wf_def Map_delete_length_present)
  with assms True show ?thesis
    by (simp add: LRUCache_set_resident cache_wf_def Map_delete_keys)
next
  case False
  show ?thesis
  proof (cases "length (cache c) < maxSize c")
    case True
    with assms False show ?thesis
      by (simp add: LRUCache_set_room cache_wf_def)
  next
    case full: False
    with assms have ne: "cache c \<noteq> []" by (auto simp: cache_wf_def)
    from assms have d: "distinct (map fst (cache c))" by (simp add: cache_wf_def)
    from ne d have "distinct (map fst (tl (cache c)))" by (cases "cache c") auto
    moreover from ne False have "key \<notin> fst ` set (tl (cache c))" by (cases "cache c") auto
    ultimately show ?thesis using assms False full ne d
      by (simp add: LRUCache_set_full cache_wf_def)
  qed
qed

lemma maxSize_get [simp]: "maxSize (snd (LRUCache_get key c)) = maxSize c"
  by (simp add: LRUCache_get_def split: option.splits)

lemma maxSize_set [simp]: "maxSize (LRUCache_set key v c) = maxSize c"
  by (simp add: LRUCache_set_def Let_def)

section \<open>The matcher computes the language of an expression\<close>

text \<open>
  For an expression without groups, the states that \<open>rx_match\<close> returns are exactly the
  rests of the input after a word of the language, with the captured groups unchanged.
  The bound on the iterations of a repetition and the skipping of empty iterations lose
  no match.
\<close>

lemma iter_Nil: "[] \<in> iter L"
  unfolding iter_def by (rule CollectI, rule exI[of _ "[]"]) simp

lemma iter_step: "u \<in> L \<Longrightarrow> v \<in> iter L \<Longrightarrow> u @ v \<in> iter L"
proof -
  assume u: "u \<in> L" and "v \<in> iter L"
  then obtain ws where "v = concat ws" "set ws \<subseteq> L" by (auto simp: iter_def)
  with u have "u @ v = concat (u # ws)" "set (u # ws) \<subseteq> L" by auto
  then show ?thesis unfolding iter_def by blast
qed

lemma iter_cases:
  assumes "x \<in> iter L"
  shows "x = [] \<or> (\<exists>u v. x = u @ v \<and> u \<noteq> [] \<and> u \<in> L \<and> v \<in> iter L)"
proof -
  from assms obtain ws where x: "x = concat ws" and ws: "set ws \<subseteq> L" by (auto simp: iter_def)
  from ws show ?thesis unfolding x
  proof (induction ws)
    case Nil
    then show ?case by simp
  next
    case (Cons a ws)
    show ?case
    proof (cases "a = []")
      case True
      with Cons show ?thesis by simp
    next
      case False
      from Cons.prems have "concat ws \<in> iter L" by (auto simp: iter_def)
      with False Cons.prems show ?thesis by auto
    qed
  qed
qed

lemma star_sound_complete:
  assumes f: "\<And>st. set (f st) = rests L st"
  shows "length (fst st) \<le> n \<Longrightarrow> set (star f n st) = rests (iter L) st"
proof (induction n arbitrary: st)
  case 0
  then have "fst st = []" by simp
  then show ?case using iter_Nil[of L] by (cases st) (auto simp: rests_def)
next
  case (Suc n)
  show ?case
  proof (rule set_eqI, rule iffI)
    fix x assume "x \<in> set (star f (Suc n) st)"
    then consider "x = st" | st' where "st' \<in> set (f st)" "length (fst st') < length (fst st)"
        "x \<in> set (star f n st')"
      by auto
    then show "x \<in> rests (iter L) st"
    proof cases
      case 1
      then show ?thesis using iter_Nil[of L] by (cases st) (auto simp: rests_def)
    next
      case 2
      from 2(2) Suc.prems have "length (fst st') \<le> n" by simp
      with 2(3) Suc.IH have x: "x \<in> rests (iter L) st'" by simp
      from 2(1) f have "st' \<in> rests L st" by simp
      then obtain u where u: "u \<in> L" "fst st = u @ fst st'" "snd st' = snd st"
        by (auto simp: rests_def)
      from x obtain v where v: "v \<in> iter L" "fst st' = v @ fst x" "snd x = snd st'"
        by (auto simp: rests_def)
      from u v have "u @ v \<in> iter L" "fst st = (u @ v) @ fst x" "snd x = snd st"
        by (auto intro: iter_step)
      then show ?thesis unfolding rests_def by (cases x) force
    qed
  next
    fix x assume "x \<in> rests (iter L) st"
    then obtain a where a: "a \<in> iter L" "fst st = a @ fst x" "snd x = snd st"
      by (auto simp: rests_def)
    from iter_cases[OF a(1)] show "x \<in> set (star f (Suc n) st)"
    proof
      assume "a = []"
      with a have "x = st" by (simp add: prod_eq_iff)
      then show ?thesis by simp
    next
      assume "\<exists>u v. a = u @ v \<and> u \<noteq> [] \<and> u \<in> L \<and> v \<in> iter L"
      then obtain u v where uv: "a = u @ v" "u \<noteq> []" "u \<in> L" "v \<in> iter L" by blast
      let ?st' = "(v @ fst x, snd st)"
      from uv a have "?st' \<in> rests L st" by (auto simp: rests_def)
      with f have in_f: "?st' \<in> set (f st)" by simp
      from uv a have shorter: "length (fst ?st') < length (fst st)" by simp
      with Suc.prems have "length (fst ?st') \<le> n" by simp
      then have "set (star f n ?st') = rests (iter L) ?st'" by (rule Suc.IH)
      moreover from uv a have "x \<in> rests (iter L) ?st'" by (cases x) (auto simp: rests_def)
      ultimately have "x \<in> set (star f n ?st')" by simp
      with in_f shorter show ?thesis by auto
    qed
  qed
qed

theorem rx_match_lang:
  "group_free r \<Longrightarrow> set (rx_match r st) = rests (lang r) st"
proof (induction r arbitrary: st)
  case Eps
  then show ?case by (cases st) (auto simp: rests_def)
next
  case (Ch c)
  then show ?case by (cases st) (auto simp: rests_def split: list.splits)
next
  case Digit
  then show ?case by (cases st) (auto simp: rests_def split: list.splits)
next
  case (Cat a b)
  then have a: "\<And>st. set (rx_match a st) = rests (lang a) st"
    and b: "\<And>st. set (rx_match b st) = rests (lang b) st" by simp_all
  show ?case
    by (cases st) (auto simp: a b rests_def, force+)
next
  case (Alt a b)
  then show ?case by (cases st) (auto simp: rests_def)
next
  case (Opt a)
  then show ?case by (cases st) (auto simp: rests_def)
next
  case (Star a)
  then have a: "\<And>st. set (rx_match a st) = rests (lang a) st" by simp
  show ?case using star_sound_complete[OF a, of st "length (fst st)"] by simp
next
  case (Plus a)
  then have a: "\<And>st. set (rx_match a st) = rests (lang a) st" by simp
  have s: "\<And>st. set (star (rx_match a) (length (fst st)) st) = rests (iter (lang a)) st"
    using star_sound_complete[OF a] by simp
  show ?case
    by (cases st) (auto simp: a s rests_def, force+)
next
  case (Group name a)
  then show ?case by simp
qed

section \<open>Upper and lower case\<close>

lemma of_char_shift_up:
  "of_char c \<le> (90::nat) \<Longrightarrow> of_char (char_of (of_char c + (32::nat))) = of_char c + (32::nat)"
  by simp

lemma of_char_shift_down:
  "of_char (char_of (of_char c - (32::nat))) = of_char c - (32::nat)"
proof -
  have "of_char c < (256::nat)" by simp
  then have "of_char c - (32::nat) < 256" by arith
  then show ?thesis by simp
qed

lemma char_eq_nat: "(c = e) = ((of_char c :: nat) = of_char e)"
  by simp

lemma upper_lower [simp]: "toUpperCase_char (toLowerCase_char c) = toUpperCase_char c"
  unfolding toUpperCase_char_def toLowerCase_char_def less_eq_char_def
  by (auto simp: char_eq_nat of_char_shift_down of_char_shift_up simp del: of_char_eq_iff of_char_of)

lemma lower_upper [simp]: "toLowerCase_char (toUpperCase_char c) = toLowerCase_char c"
  unfolding toUpperCase_char_def toLowerCase_char_def less_eq_char_def
  by (auto simp: char_eq_nat of_char_shift_down of_char_shift_up simp del: of_char_eq_iff of_char_of)

lemma upper_fix: "of_char c < (97::nat) \<Longrightarrow> toUpperCase_char c = c"
  unfolding toUpperCase_char_def less_eq_char_def by simp

lemma lower_fix: "of_char c < (65::nat) \<Longrightarrow> toLowerCase_char c = c"
  unfolding toLowerCase_char_def less_eq_char_def by simp

lemma upper_eq_small:
  assumes "of_char e < (65::nat)"
  shows "toUpperCase_char x = toUpperCase_char e \<longleftrightarrow> x = e"
proof -
  have e: "toUpperCase_char e = e" using assms by (simp add: upper_fix)
  show ?thesis unfolding e using assms
    unfolding toUpperCase_char_def less_eq_char_def
    by (auto simp: char_eq_nat of_char_shift_down of_char_shift_up simp del: of_char_eq_iff of_char_of)
qed

lemma lower_o_upper [simp]: "toLowerCase_char \<circ> toUpperCase_char = toLowerCase_char"
  by (rule ext) simp

lemma upper_o_lower [simp]: "toUpperCase_char \<circ> toLowerCase_char = toUpperCase_char"
  by (rule ext) simp

section \<open>The languages of the unit, the magnitude and the spaces\<close>

lemma ci_eq_lower: "ci_eq a b \<longleftrightarrow> toLowerCase a = toLowerCase b"
proof
  assume "ci_eq a b"
  then have "map toLowerCase_char (map toUpperCase_char a) = map toLowerCase_char (map toUpperCase_char b)"
    by (simp only: ci_eq_def)
  then show "toLowerCase a = toLowerCase b" by (simp add: toLowerCase_def)
next
  assume "toLowerCase a = toLowerCase b"
  then have "map toUpperCase_char (map toLowerCase_char a) = map toUpperCase_char (map toLowerCase_char b)"
    by (simp only: toLowerCase_def)
  then show "ci_eq a b" by (simp add: ci_eq_def)
qed

lemma lang_Ch_Cat:
  "lang (Cat (Ch c) r) = {x # t | x t. toUpperCase_char x = toUpperCase_char c \<and> t \<in> lang r}"
proof (rule set_eqI, rule iffI)
  fix a assume "a \<in> lang (Cat (Ch c) r)"
  then obtain x t where "a = [x] @ t" "toUpperCase_char x = toUpperCase_char c" "t \<in> lang r"
    by auto
  then show "a \<in> {x # t | x t. toUpperCase_char x = toUpperCase_char c \<and> t \<in> lang r}" by simp
next
  fix a assume "a \<in> {x # t | x t. toUpperCase_char x = toUpperCase_char c \<and> t \<in> lang r}"
  then obtain x t where "a = [x] @ t" "[x] \<in> lang (Ch c)" "t \<in> lang r" by auto
  then show "a \<in> lang (Cat (Ch c) r)" unfolding lang.simps(4) by blast
qed

lemma ci_eq_Nil [simp]: "ci_eq a [] \<longleftrightarrow> a = []"
  by (simp add: ci_eq_def)

lemma ci_eq_Cons:
  "ci_eq a (c # cs) \<longleftrightarrow> (\<exists>x t. a = x # t \<and> toUpperCase_char x = toUpperCase_char c \<and> ci_eq t cs)"
  unfolding ci_eq_def list.map map_eq_Cons_conv by blast

lemma lang_lit: "lang (lit wd) = {a. ci_eq a wd}"
proof (induction wd rule: lit.induct)
  case 1
  show ?case by simp
next
  case (2 c)
  show ?case by (simp add: ci_eq_Cons)
next
  case (3 c v va)
  show ?case
    unfolding lit.simps lang_Ch_Cat 3 ci_eq_Cons[of _ c] by blast
qed

lemma lang_CatI: "u \<in> lang a \<Longrightarrow> v \<in> lang b \<Longrightarrow> u @ v \<in> lang (Cat a b)"
  unfolding lang.simps by blast

lemma lang_CatE:
  assumes "x \<in> lang (Cat a b)"
  obtains u v where "x = u @ v" "u \<in> lang a" "v \<in> lang b"
  using assms unfolding lang.simps by blast

lemma ci_eq_snoc:
  "ci_eq a (wd @ [c]) \<longleftrightarrow> (\<exists>u x. a = u @ [x] \<and> ci_eq u wd \<and> toUpperCase_char x = toUpperCase_char c)"
proof
  assume "ci_eq a (wd @ [c])"
  then have eq: "map toUpperCase_char a = map toUpperCase_char wd @ [toUpperCase_char c]"
    by (simp add: ci_eq_def)
  then have "length (map toUpperCase_char a) = length (map toUpperCase_char wd @ [toUpperCase_char c])"
    by (rule arg_cong)
  then have ne: "a \<noteq> []" by auto
  then have a: "a = butlast a @ [last a]" by simp
  from eq have "map toUpperCase_char (butlast a) @ [toUpperCase_char (last a)] =
      map toUpperCase_char wd @ [toUpperCase_char c]"
    by (subst (asm) a) simp
  then have "ci_eq (butlast a) wd" "toUpperCase_char (last a) = toUpperCase_char c"
    by (simp_all add: ci_eq_def)
  with a show "\<exists>u x. a = u @ [x] \<and> ci_eq u wd \<and> toUpperCase_char x = toUpperCase_char c"
    by (intro exI[of _ "butlast a"] exI[of _ "last a"] conjI)
next
  assume "\<exists>u x. a = u @ [x] \<and> ci_eq u wd \<and> toUpperCase_char x = toUpperCase_char c"
  then obtain u x where "a = u @ [x]" "ci_eq u wd" "toUpperCase_char x = toUpperCase_char c"
    by (elim exE conjE)
  then show "ci_eq a (wd @ [c])" by (simp add: ci_eq_def)
qed

lemma lang_lit_opt:
  "lang (Cat (lit wd) (Opt (Ch c))) = {a. ci_eq a wd \<or> ci_eq a (wd @ [c])}"
proof (rule set_eqI, rule iffI)
  fix a assume "a \<in> lang (Cat (lit wd) (Opt (Ch c)))"
  then obtain u v where uv0: "a = u @ v" "u \<in> lang (lit wd)" "v \<in> lang (Opt (Ch c))"
    by (rule lang_CatE)
  then have uv: "a = u @ v" "ci_eq u wd"
    "v = [] \<or> (\<exists>x. v = [x] \<and> toUpperCase_char x = toUpperCase_char c)"
    by (auto simp: lang_lit)
  from uv(3) show "a \<in> {a. ci_eq a wd \<or> ci_eq a (wd @ [c])}"
  proof
    assume "v = []"
    with uv show ?thesis by simp
  next
    assume "\<exists>x. v = [x] \<and> toUpperCase_char x = toUpperCase_char c"
    with uv have "ci_eq a (wd @ [c])" unfolding ci_eq_snoc by blast
    then show ?thesis by simp
  qed
next
  fix a assume "a \<in> {a. ci_eq a wd \<or> ci_eq a (wd @ [c])}"
  then consider "ci_eq a wd" | "ci_eq a (wd @ [c])" by blast
  then show "a \<in> lang (Cat (lit wd) (Opt (Ch c)))"
  proof cases
    case 1
    then have "a \<in> lang (lit wd)" "[] \<in> lang (Opt (Ch c))" by (simp_all add: lang_lit)
    then have "a @ [] \<in> lang (Cat (lit wd) (Opt (Ch c)))" by (rule lang_CatI)
    then show ?thesis by simp
  next
    case 2
    then obtain u x where "a = u @ [x]" "ci_eq u wd" "toUpperCase_char x = toUpperCase_char c"
      unfolding ci_eq_snoc by blast
    then have a: "a = u @ [x]" and "u \<in> lang (lit wd)" "[x] \<in> lang (Opt (Ch c))"
      by (simp_all add: lang_lit)
    then have "u @ [x] \<in> lang (Cat (lit wd) (Opt (Ch c)))" by (intro lang_CatI)
    with a show ?thesis by simp
  qed
qed

lemma lower_literal:
  "toLowerCase [] = []"
  "toLowerCase (c # cs) = toLowerCase_char c # toLowerCase cs"
  by (simp_all add: toLowerCase_def)

lemma lang_unitRx_words:
  "lang unitRx = {u. toLowerCase u \<in> set [''millisecond'', ''milliseconds'', ''msec'', ''msecs'', ''ms'',
      ''second'', ''seconds'', ''sec'', ''secs'', ''s'', ''minute'', ''minutes'', ''min'', ''mins'', ''m'',
      ''hour'', ''hours'', ''hr'', ''hrs'', ''h'', ''day'', ''days'', ''d'', ''week'', ''weeks'', ''w'',
      ''month'', ''months'', ''mo'', ''year'', ''years'', ''yr'', ''yrs'', ''y'']}"
  apply (simp only: unitRx_def lang.simps(5) lang_lit_opt lang_lit ci_eq_lower)
  apply (simp only: append.simps lower_literal toLowerCase_char_def less_eq_char_def of_char_Char)
  apply (simp add: set_eq_iff)
  done

lemma lang_unitRx: "lang unitRx = {u. toLowerCase u \<in> set unitNames}"
  unfolding lang_unitRx_words unitNames_def unitMultipliers_def
  by (rule arg_cong[where f = "\<lambda>S. {u. toLowerCase u \<in> S}"]) (simp add: insert_commute)

lemma iter_single: "iter {[x] | x. P x} = {ds. list_all P ds}"
proof (rule set_eqI, rule iffI)
  fix a assume "a \<in> iter {[x] | x. P x}"
  then obtain ws where a: "a = concat ws" and ws: "set ws \<subseteq> {[x] | x. P x}"
    unfolding iter_def by blast
  from ws have "list_all P (concat ws)" by (induction ws) auto
  with a show "a \<in> {ds. list_all P ds}" by simp
next
  fix a assume "a \<in> {ds. list_all P ds}"
  then have "list_all P a" by simp
  then have "set (map (\<lambda>x. [x]) a) \<subseteq> {[x] | x. P x}" by (auto simp: list_all_iff)
  moreover have "a = concat (map (\<lambda>x. [x]) a)" by (induction a) auto
  ultimately show "a \<in> iter {[x] | x. P x}" unfolding iter_def by blast
qed

lemma lang_Star_Digit: "lang (Star Digit) = {ds. list_all isDigit ds}"
  by (simp add: iter_single)

lemma lang_Plus_Digit: "lang (Plus Digit) = {ds. ds \<noteq> [] \<and> list_all isDigit ds}"
proof (rule set_eqI, rule iffI)
  fix a assume "a \<in> lang (Plus Digit)"
  then obtain x v where "a = [x] @ v" "isDigit x" "list_all isDigit v"
    unfolding lang.simps iter_single by blast
  then show "a \<in> {ds. ds \<noteq> [] \<and> list_all isDigit ds}" by simp
next
  fix a assume "a \<in> {ds. ds \<noteq> [] \<and> list_all isDigit ds}"
  then obtain x v where "a = [x] @ v" "[x] \<in> lang Digit" "v \<in> iter (lang Digit)"
    by (cases a) (auto simp: iter_single)
  then show "a \<in> lang (Plus Digit)" unfolding lang.simps(8) by blast
qed

lemma lang_Opt_minus: "lang (Opt (Ch CHR ''-'')) = {[], ''-''}"
  by (auto simp: upper_eq_small)

lemma lang_Opt_point: "lang (Opt (Ch CHR ''.'')) = {[], ''.''}"
  by (auto simp: upper_eq_small)

lemma isValue_isBody:
  "isValue v = isBody (case v of [] \<Rightarrow> [] | c # cs \<Rightarrow> if c = CHR ''-'' then cs else v)"
  by (simp add: isValue_def isBody_def Let_def)

lemma not_digit_point [simp]: "\<not> isDigit CHR ''.''"
  by (simp add: isDigit_def less_eq_char_def)

lemma not_digit_minus [simp]: "\<not> isDigit CHR ''-''"
  by (simp add: isDigit_def less_eq_char_def)

lemma not_digit_space [simp]: "\<not> isDigit CHR '' ''"
  by (simp add: isDigit_def less_eq_char_def)

lemma dropWhile_all: "list_all P xs \<Longrightarrow> dropWhile P (xs @ ys) = dropWhile P ys"
  by (induction xs) auto

lemma dropWhile_all_Nil: "list_all P xs \<Longrightarrow> dropWhile P xs = []"
  by (induction xs) auto

lemma takeWhile_all: "list_all P xs \<Longrightarrow> takeWhile P (xs @ ys) = xs @ takeWhile P ys"
  by (induction xs) auto

lemma lang_body:
  "lang (Cat (Star Digit) (Cat (Opt (Ch CHR ''.'')) (Plus Digit))) = {b. isBody b}"
proof (rule set_eqI, rule iffI)
  fix b assume "b \<in> lang (Cat (Star Digit) (Cat (Opt (Ch CHR ''.'')) (Plus Digit)))"
  then obtain ds1 t where b: "b = ds1 @ t" "ds1 \<in> lang (Star Digit)"
    "t \<in> lang (Cat (Opt (Ch CHR ''.'')) (Plus Digit))" by (rule lang_CatE)
  from b(3) obtain pt ds2 where t: "t = pt @ ds2" "pt \<in> lang (Opt (Ch CHR ''.''))"
    "ds2 \<in> lang (Plus Digit)" by (rule lang_CatE)
  from b(2) have d1: "list_all isDigit ds1" by (simp add: lang_Star_Digit del: lang.simps)
  from t(3) have d2: "ds2 \<noteq> []" "list_all isDigit ds2" by (simp_all add: lang_Plus_Digit del: lang.simps)
  from t(2) consider "pt = []" | "pt = ''.''" unfolding lang_Opt_point by blast
  then have "isBody (ds1 @ pt @ ds2)"
  proof cases
    case 1
    with d1 d2 show ?thesis by (simp add: isBody_def dropWhile_all dropWhile_all_Nil)
  next
    case 2
    with d1 d2 show ?thesis by (simp add: isBody_def dropWhile_all)
  qed
  with b t show "b \<in> {b. isBody b}" by simp
next
  fix b assume "b \<in> {b. isBody b}"
  then have ib: "isBody b" by simp
  have split: "b = takeWhile isDigit b @ dropWhile isDigit b" by simp
  have tk: "takeWhile isDigit b \<in> lang (Star Digit)"
    by (simp add: lang_Star_Digit list_all_iff del: lang.simps) (meson set_takeWhileD)
  show "b \<in> lang (Cat (Star Digit) (Cat (Opt (Ch CHR ''.'')) (Plus Digit)))"
  proof (cases "dropWhile isDigit b")
    case Nil
    then have "list_all isDigit b" by (simp add: list_all_iff)
    with ib have "b \<in> lang (Plus Digit)" by (simp add: lang_Plus_Digit isBody_def del: lang.simps)
    moreover have "[] \<in> lang (Opt (Ch CHR ''.''))" by simp
    ultimately have "[] @ b \<in> lang (Cat (Opt (Ch CHR ''.'')) (Plus Digit))" by (rule lang_CatI[rotated])
    moreover have "[] \<in> lang (Star Digit)" by (simp add: lang_Star_Digit del: lang.simps)
    ultimately have "[] @ [] @ b \<in> lang (Cat (Star Digit) (Cat (Opt (Ch CHR ''.'')) (Plus Digit)))"
      by (rule lang_CatI[rotated])
    then show ?thesis by simp
  next
    case (Cons c fp)
    with ib have c: "c = CHR ''.''" and fp: "fp \<noteq> []" "list_all isDigit fp"
      by (simp_all add: isBody_def)
    from fp have "fp \<in> lang (Plus Digit)" by (simp add: lang_Plus_Digit del: lang.simps)
    moreover have "''.'' \<in> lang (Opt (Ch CHR ''.''))" by (simp add: lang_Opt_point del: lang.simps)
    ultimately have "''.'' @ fp \<in> lang (Cat (Opt (Ch CHR ''.'')) (Plus Digit))" by (rule lang_CatI[rotated])
    with tk have "takeWhile isDigit b @ ''.'' @ fp \<in> lang (Cat (Star Digit) (Cat (Opt (Ch CHR ''.'')) (Plus Digit)))"
      by (rule lang_CatI)
    moreover from split Cons c have "b = takeWhile isDigit b @ ''.'' @ fp" by simp
    ultimately show ?thesis by simp
  qed
qed

lemma isBody_hd: "isBody b \<Longrightarrow> b \<noteq> [] \<and> hd b \<noteq> CHR ''-''"
  by (cases b) (auto simp: isBody_def split: if_splits)

lemma lang_valueRx: "lang valueRx = {v. isValue v}"
proof (rule set_eqI, rule iffI)
  fix v assume "v \<in> lang valueRx"
  then obtain sg b where v: "v = sg @ b" "sg \<in> lang (Opt (Ch CHR ''-''))"
    "b \<in> lang (Cat (Star Digit) (Cat (Opt (Ch CHR ''.'')) (Plus Digit)))"
    unfolding valueRx_def by (rule lang_CatE)
  from v(3) have b: "isBody b" by (simp add: lang_body del: lang.simps)
  from v(2) consider "sg = []" | "sg = ''-''" unfolding lang_Opt_minus by blast
  then have "isValue (sg @ b)"
  proof cases
    case 1
    with b isBody_hd[OF b] show ?thesis by (cases b) (simp_all add: isValue_isBody)
  next
    case 2
    with b show ?thesis by (simp add: isValue_isBody)
  qed
  with v show "v \<in> {v. isValue v}" by simp
next
  fix v assume "v \<in> {v. isValue v}"
  then have iv: "isValue v" by simp
  let ?B = "Cat (Star Digit) (Cat (Opt (Ch CHR ''.'')) (Plus Digit))"
  show "v \<in> lang valueRx"
  proof (cases "\<exists>cs. v = CHR ''-'' # cs")
    case True
    then obtain cs where cs: "v = ''-'' @ cs" by auto
    with iv have "cs \<in> lang ?B" by (simp add: isValue_isBody lang_body del: lang.simps)
    moreover have "''-'' \<in> lang (Opt (Ch CHR ''-''))" by (simp add: lang_Opt_minus del: lang.simps)
    ultimately have "''-'' @ cs \<in> lang (Cat (Opt (Ch CHR ''-'')) ?B)" by (rule lang_CatI[rotated])
    with cs show ?thesis by (simp add: valueRx_def)
  next
    case False
    with iv have "v \<in> lang ?B" by (cases v) (auto simp: isValue_isBody lang_body simp del: lang.simps)
    moreover have "[] \<in> lang (Opt (Ch CHR ''-''))" by (simp add: lang_Opt_minus del: lang.simps)
    ultimately have "[] @ v \<in> lang (Cat (Opt (Ch CHR ''-'')) ?B)" by (rule lang_CatI[rotated])
    then show ?thesis by (simp add: valueRx_def)
  qed
qed

lemma lang_spaces: "lang (Star (Ch CHR '' '')) = {sp. list_all isSpace sp}"
proof -
  have "{[x] | x. toUpperCase_char x = toUpperCase_char CHR '' ''} = {[x] | x. isSpace x}"
    by (simp add: upper_eq_small isSpace_def)
  then show ?thesis by (simp add: iter_single)
qed

section \<open>The split of a matched input is unique\<close>

text \<open>
  A magnitude consists of digits, \<open>-\<close> and \<open>.\<close> only, a unit starts with a letter: an input
  splits into magnitude, spaces and unit in at most one way.
\<close>

lemma small_chars: "isValueChar c \<or> isSpace c \<Longrightarrow> of_char c < (65::nat)"
  by (auto simp: isValueChar_def isSpace_def isDigit_def less_eq_char_def)

lemma space_not_value: "isSpace c \<Longrightarrow> \<not> isValueChar c"
  by (auto simp: isValueChar_def isSpace_def)

lemma isBody_chars: "isBody b \<Longrightarrow> list_all isValueChar b"
proof -
  assume ib: "isBody b"
  have split: "b = takeWhile isDigit b @ dropWhile isDigit b" by simp
  have "list_all isValueChar (takeWhile isDigit b)"
    by (auto simp: list_all_iff isValueChar_def dest: set_takeWhileD)
  moreover have "list_all isValueChar (dropWhile isDigit b)"
  proof (cases "dropWhile isDigit b")
    case Nil
    then show ?thesis by (simp only: list.pred_inject)
  next
    case (Cons c fp)
    with ib have "c = CHR ''.''" "list_all isDigit fp" by (simp_all add: isBody_def)
    then show ?thesis unfolding Cons by (auto simp: list_all_iff isValueChar_def)
  qed
  ultimately have "list_all isValueChar (takeWhile isDigit b @ dropWhile isDigit b)"
    by (simp only: list_all_append)
  then show ?thesis by simp
qed

lemma isValue_chars: "isValue v \<Longrightarrow> v \<noteq> [] \<and> list_all isValueChar v"
proof (cases v)
  case Nil
  assume "isValue v"
  with Nil show ?thesis by (simp add: isValue_isBody isBody_def)
next
  case (Cons c cs)
  assume iv: "isValue v"
  show ?thesis
  proof (cases "c = CHR ''-''")
    case True
    with iv Cons have "list_all isValueChar cs" by (simp add: isValue_isBody isBody_chars)
    with True Cons show ?thesis by (simp add: isValueChar_def)
  next
    case False
    with iv Cons have "isBody v" by (simp add: isValue_isBody)
    then have "list_all isValueChar v" by (rule isBody_chars)
    with Cons show ?thesis by simp
  qed
qed

lemma unit_hd:
  assumes "toLowerCase u \<in> set unitNames"
  shows "u \<noteq> [] \<and> \<not> isValueChar (hd u) \<and> \<not> isSpace (hd u)"
proof (cases u)
  case Nil
  with assms show ?thesis by (simp add: unitNames_def unitMultipliers_def toLowerCase_def)
next
  case (Cons c cs)
  with assms have "(97::nat) \<le> of_char (toLowerCase_char c)"
    by (auto simp: unitNames_def unitMultipliers_def toLowerCase_def)
  then have "\<not> of_char c < (65::nat)" using lower_fix[of c] by auto
  with small_chars[of c] Cons show ?thesis by auto
qed

lemma decomp_unique:
  assumes "list_all isValueChar v" "list_all isSpace sp"
    "u = [] \<or> (\<not> isValueChar (hd u) \<and> \<not> isSpace (hd u))"
  shows "takeWhile isValueChar (v @ sp @ u) = v"
    and "dropWhile isSpace (dropWhile isValueChar (v @ sp @ u)) = u"
proof -
  from assms(2,3) have t: "takeWhile isValueChar (sp @ u) = []"
    by (cases sp; cases u) (auto simp: space_not_value)
  from assms(2,3) have dv: "dropWhile isValueChar (sp @ u) = sp @ u"
    by (cases sp; cases u) (auto simp: space_not_value)
  from assms(3) have ds: "dropWhile isSpace u = u" by (cases u) auto
  from assms(1) t show "takeWhile isValueChar (v @ sp @ u) = v" by (simp add: takeWhile_all)
  from assms(1,2) dv ds show "dropWhile isSpace (dropWhile isValueChar (v @ sp @ u)) = u"
    by (simp add: dropWhile_all)
qed

section \<open>The groups of a match\<close>

text \<open>
  All matches of \<open>parseRegex\<close> that reach the end of the input capture the same groups, so
  the order in which the matcher tries them does not matter, and \<open>parseRegex.exec\<close> is the
  deterministic split \<open>exec_det\<close>.
\<close>

lemma group_free_lit [simp]: "group_free (lit wd)"
  by (induction wd rule: lit.induct) simp_all

lemma group_free_valueRx: "group_free valueRx"
  by (simp add: valueRx_def)

lemma group_free_unitRx: "group_free unitRx"
  by (simp add: unitRx_def)

lemma rx_match_Group:
  assumes "group_free a"
  shows "set (rx_match (Group name a) (str, gs)) =
         {(rest, (name, u) # gs) | u rest. u \<in> lang a \<and> str = u @ rest}"
proof (rule set_eqI, rule iffI)
  fix x assume "x \<in> set (rx_match (Group name a) (str, gs))"
  then obtain rest gs' where x: "x = (rest, (name, take (length str - length rest) str) # gs')"
    and "(rest, gs') \<in> set (rx_match a (str, gs))" by auto
  then have "(rest, gs') \<in> rests (lang a) (str, gs)" using assms by (simp add: rx_match_lang)
  then obtain u where u: "u \<in> lang a" "str = u @ rest" "gs' = gs" by (auto simp: rests_def)
  then have "take (length str - length rest) str = u" by simp
  with x u show "x \<in> {(rest, (name, u) # gs) | u rest. u \<in> lang a \<and> str = u @ rest}" by simp
next
  fix x assume "x \<in> {(rest, (name, u) # gs) | u rest. u \<in> lang a \<and> str = u @ rest}"
  then obtain u rest where x: "x = (rest, (name, u) # gs)" and u: "u \<in> lang a" "str = u @ rest"
    by blast
  then have "(rest, gs) \<in> rests (lang a) (str, gs)" by (auto simp: rests_def)
  then have "(rest, gs) \<in> set (rx_match a (str, gs))" using assms by (simp add: rx_match_lang)
  moreover from u have "take (length str - length rest) str = u" by simp
  ultimately show "x \<in> set (rx_match (Group name a) (str, gs))"
    unfolding x by (auto simp: image_iff intro!: bexI[of _ "(rest, gs)"])
qed

lemma rx_match_parseRegex:
  "set (rx_match parseRegex st) =
    (\<Union>st1 \<in> set (rx_match (Group ''value'' valueRx) st).
      \<Union>st2 \<in> set (rx_match (Star (Ch CHR '' '')) st1).
        set (rx_match (Group ''unit'' unitRx) st2) \<union> {st2})"
  by (simp only: parseRegex_def rx_match.simps(4) rx_match.simps(6) set_concat set_map
      set_append image_image list.set Un_insert_right Un_empty_right UN_simps insert_is_Un[symmetric])

lemma rx_match_spaces:
  "set (rx_match (Star (Ch CHR '' '')) (str, gs)) =
     {(rest, gs) | sp rest. list_all isSpace sp \<and> str = sp @ rest}"
proof -
  have "group_free (Star (Ch CHR '' ''))" by simp
  then have "set (rx_match (Star (Ch CHR '' '')) (str, gs)) =
      rests (lang (Star (Ch CHR '' ''))) (str, gs)" by (rule rx_match_lang)
  also have "\<dots> = {(rest, gs) | sp rest. list_all isSpace sp \<and> str = sp @ rest}"
    unfolding lang_spaces rests_def by auto
  finally show ?thesis .
qed

lemma rx_match_value:
  "set (rx_match (Group ''value'' valueRx) (str, gs)) =
     {(rest, (''value'', v) # gs) | v rest. isValue v \<and> str = v @ rest}"
  unfolding rx_match_Group[OF group_free_valueRx] lang_valueRx by simp

lemma rx_match_unit:
  "set (rx_match (Group ''unit'' unitRx) (str, gs)) =
     {(rest, (''unit'', u) # gs) | u rest. toLowerCase u \<in> set unitNames \<and> str = u @ rest}"
  unfolding rx_match_Group[OF group_free_unitRx] lang_unitRx by simp

lemma parseRegex_complete:
  "([], gs) \<in> set (rx_match parseRegex (str, [])) \<longleftrightarrow>
   (\<exists>v sp u. str = v @ sp @ u \<and> isValue v \<and> list_all isSpace sp \<and>
      ((toLowerCase u \<in> set unitNames \<and> gs = [(''unit'', u), (''value'', v)]) \<or>
       (u = [] \<and> gs = [(''value'', v)])))"
  (is "?L \<longleftrightarrow> ?R")
proof
  assume ?L
  then obtain st1 st2 where st1: "st1 \<in> set (rx_match (Group ''value'' valueRx) (str, []))"
    and st2: "st2 \<in> set (rx_match (Star (Ch CHR '' '')) st1)"
    and fin: "([], gs) \<in> set (rx_match (Group ''unit'' unitRx) st2) \<or> ([], gs) = st2"
    unfolding rx_match_parseRegex by blast
  from st1 obtain v r1 where v: "st1 = (r1, [(''value'', v)])" "isValue v" "str = v @ r1"
    unfolding rx_match_value by blast
  from st2 obtain sp r2 where sp: "st2 = (r2, [(''value'', v)])" "list_all isSpace sp" "r1 = sp @ r2"
    unfolding v(1) rx_match_spaces by blast
  from fin show ?R
  proof
    assume "([], gs) \<in> set (rx_match (Group ''unit'' unitRx) st2)"
    then have "toLowerCase r2 \<in> set unitNames" "gs = [(''unit'', r2), (''value'', v)]"
      unfolding sp(1) rx_match_unit by auto
    with v sp show ?R by blast
  next
    assume "([], gs) = st2"
    with sp have "r2 = []" "gs = [(''value'', v)]" by simp_all
    with v sp show ?R by blast
  qed
next
  assume ?R
  then obtain v sp u where d: "str = v @ sp @ u" "isValue v" "list_all isSpace sp"
    and alt: "(toLowerCase u \<in> set unitNames \<and> gs = [(''unit'', u), (''value'', v)]) \<or>
       (u = [] \<and> gs = [(''value'', v)])" by blast
  let ?st1 = "(sp @ u, [(''value'', v)])"
  let ?st2 = "(u, [(''value'', v)])"
  from d have 1: "?st1 \<in> set (rx_match (Group ''value'' valueRx) (str, []))"
    unfolding rx_match_value by blast
  from d have 2: "?st2 \<in> set (rx_match (Star (Ch CHR '' '')) ?st1)"
    unfolding rx_match_spaces by blast
  from alt have "([], gs) \<in> set (rx_match (Group ''unit'' unitRx) ?st2) \<or> ([], gs) = ?st2"
  proof
    assume "toLowerCase u \<in> set unitNames \<and> gs = [(''unit'', u), (''value'', v)]"
    then have "([], gs) \<in> set (rx_match (Group ''unit'' unitRx) ?st2)"
      unfolding rx_match_unit by simp
    then show ?thesis ..
  next
    assume "u = [] \<and> gs = [(''value'', v)]"
    then show ?thesis by simp
  qed
  with 1 2 show ?L unfolding rx_match_parseRegex by blast
qed

lemma first_filter_Some:
  assumes "\<exists>x \<in> set xs. P x" "\<And>x. x \<in> set xs \<Longrightarrow> P x \<Longrightarrow> g x = r"
  shows "(case filter P xs of [] \<Rightarrow> None | x # _ \<Rightarrow> Some (g x)) = Some r"
proof (cases "filter P xs")
  case Nil
  with assms(1) show ?thesis by (simp add: filter_empty_conv)
next
  case (Cons x rest)
  then have "x \<in> set (filter P xs)" by simp
  then have "x \<in> set xs" "P x" by simp_all
  with assms(2) Cons show ?thesis by simp
qed

lemma first_filter_None:
  assumes "\<And>x. x \<in> set xs \<Longrightarrow> \<not> P x"
  shows "(case filter P xs of [] \<Rightarrow> None | x # _ \<Rightarrow> Some (g x)) = None"
proof -
  from assms have "filter P xs = []" by (simp add: filter_empty_conv)
  then show ?thesis by simp
qed

theorem parseRegex_exec_det: "parseRegex_exec str = exec_det str"
proof -
  let ?v = "takeWhile isValueChar str"
  let ?u = "dropWhile isSpace (dropWhile isValueChar str)"
  let ?gs = "(if ?u = [] then [] else [(''unit'', ?u)]) @ [(''value'', ?v)]"
  let ?xs = "rx_match parseRegex (str, [])"
  have unique: "gs = ?gs \<and> isValue ?v \<and> (?u = [] \<or> toLowerCase ?u \<in> set unitNames)"
    if "([], gs) \<in> set ?xs" for gs
  proof -
    from that obtain v sp u where d: "str = v @ sp @ u" "isValue v" "list_all isSpace sp"
      and alt: "(toLowerCase u \<in> set unitNames \<and> gs = [(''unit'', u), (''value'', v)]) \<or>
         (u = [] \<and> gs = [(''value'', v)])"
      unfolding parseRegex_complete by blast
    from d(2) have vc: "list_all isValueChar v" by (simp add: isValue_chars)
    from alt have hd: "u = [] \<or> (\<not> isValueChar (hd u) \<and> \<not> isSpace (hd u))"
      using unit_hd[of u] by blast
    from decomp_unique[OF vc d(3) hd] d(1) have eq: "?v = v" "?u = u" by simp_all
    from alt unit_hd[of u] have "gs = (if u = [] then [] else [(''unit'', u)]) @ [(''value'', v)]"
      by auto
    with eq d(2) alt show ?thesis by auto
  qed
  show ?thesis
  proof (cases "isValue ?v \<and> (?u = [] \<or> toLowerCase ?u \<in> set unitNames)")
    case True
    let ?sp = "takeWhile isSpace (dropWhile isValueChar str)"
    have "str = ?v @ ?sp @ ?u" by simp
    moreover have "list_all isSpace ?sp" by (auto simp: list_all_iff dest: set_takeWhileD)
    moreover from True unit_hd[of ?u] have
      "(toLowerCase ?u \<in> set unitNames \<and> ?gs = [(''unit'', ?u), (''value'', ?v)]) \<or>
       (?u = [] \<and> ?gs = [(''value'', ?v)])" by auto
    ultimately have "([], ?gs) \<in> set ?xs" using True unfolding parseRegex_complete by blast
    then have ex: "\<exists>x \<in> set ?xs. fst x = []" by force
    have "snd x = ?gs" if "x \<in> set ?xs" "fst x = []" for x
      using unique[of "snd x"] that by (cases x) simp
    with ex have "(case filter (\<lambda>st. fst st = []) ?xs of [] \<Rightarrow> None | st # _ \<Rightarrow> Some (snd st)) = Some ?gs"
      by (rule first_filter_Some)
    with True show ?thesis by (simp add: parseRegex_exec_def regex_exec_def exec_det_def Let_def)
  next
    case False
    have "fst x \<noteq> []" if "x \<in> set ?xs" for x
      using unique[of "snd x"] that False by (cases x) auto
    then have "(case filter (\<lambda>st. fst st = []) ?xs of [] \<Rightarrow> None | st # _ \<Rightarrow> Some (snd st)) = None"
      by (rule first_filter_None)
    with False show ?thesis by (simp add: parseRegex_exec_def regex_exec_def exec_det_def Let_def)
  qed
qed

section \<open>parse and the cache\<close>

declare parseRegex_exec_det [code]

text \<open>The branches of \<open>parse\<close>, one lemma each.\<close>

lemma parse_invalid:
  "\<not> validLength str \<Longrightarrow> parse str c = (Inl (InvalidArgument str), c)"
  by (simp add: parse_def validLength_def)

lemma parse_hit:
  "validLength str \<Longrightarrow> Map_get (cache c) str = Some v \<Longrightarrow>
   parse str c = (Inr v, c\<lparr>cache := Map_delete str (cache c) @ [(str, v)]\<rparr>)"
  by (simp add: parse_def validLength_def LRUCache_get_hit)

lemma parse_miss_common:
  "validLength str \<Longrightarrow> Map_get (cache c) str = None \<Longrightarrow> objGet commonValues str = Some cv \<Longrightarrow>
   parse str c = (Inr cv, LRUCache_set str cv c)"
  by (simp add: parse_def validLength_def LRUCache_get_miss)

lemma parse_miss_unmatched:
  "validLength str \<Longrightarrow> Map_get (cache c) str = None \<Longrightarrow> objGet commonValues str = None \<Longrightarrow>
   parseRegex_exec str = None \<Longrightarrow> parse str c = (Inr NaN, c)"
  by (simp add: parse_def validLength_def LRUCache_get_miss)

lemma parse_miss_error:
  "validLength str \<Longrightarrow> Map_get (cache c) str = None \<Longrightarrow> objGet commonValues str = None \<Longrightarrow>
   parseRegex_exec str = Some groups \<Longrightarrow> parseGroups groups str = Inl err \<Longrightarrow>
   parse str c = (Inl err, c)"
  by (simp add: parse_def validLength_def LRUCache_get_miss)

lemma parse_miss_matched:
  "validLength str \<Longrightarrow> Map_get (cache c) str = None \<Longrightarrow> objGet commonValues str = None \<Longrightarrow>
   parseRegex_exec str = Some groups \<Longrightarrow> parseGroups groups str = Inr result \<Longrightarrow>
   parse str c = (Inr result, LRUCache_set str result c)"
  by (simp add: parse_def validLength_def LRUCache_get_miss)

text \<open>
  The invariant of the cache of \<open>parse\<close>, and with it: the value that \<open>parse\<close> returns does
  not depend on the cache.
\<close>

lemma Map_get_parseCache [simp]: "Map_get (cache parseCache) str = None"
  by (simp add: parseCache_def LRUCache_new_def Map_get_def)

lemma cache_wf_parseCache: "cache_wf parseCache"
  by (simp add: parseCache_def LRUCache_new_def cache_wf_def)

lemma entries_ok_parseCache: "entries_ok parseCache"
  by (simp add: parseCache_def LRUCache_new_def entries_ok_def)

lemma set_Map_delete: "set (Map_delete key mp) \<subseteq> set mp"
  by (auto simp: Map_delete_def)

lemma set_cache_set:
  assumes "cache_wf c"
  shows "set (cache (LRUCache_set key v c)) \<subseteq> insert (key, v) (set (cache c))"
proof (cases "key \<in> fst ` set (cache c)")
  case True
  then show ?thesis using set_Map_delete[of key "cache c"] by (auto simp: LRUCache_set_resident)
next
  case False
  show ?thesis
  proof (cases "length (cache c) < maxSize c")
    case True
    with False show ?thesis by (simp add: LRUCache_set_room)
  next
    case full: False
    from assms have "distinct (map fst (cache c))" by (simp add: cache_wf_def)
    with False full have "LRUCache_set key v c = c\<lparr>cache := tl (cache c) @ [(key, v)]\<rparr>"
      by (simp add: LRUCache_set_full)
    moreover have "set (tl (cache c)) \<subseteq> set (cache c)" by (cases "cache c") auto
    ultimately show ?thesis by auto
  qed
qed

lemma entries_ok_subset:
  "entries_ok c \<Longrightarrow> set (cache c') \<subseteq> set (cache c) \<Longrightarrow> entries_ok c'"
  unfolding entries_ok_def by blast

lemma entries_ok_insert:
  assumes "entries_ok c" "set (cache c') \<subseteq> insert (key, v) (set (cache c))"
    "validLength key" "fst (parse key parseCache) = Inr v"
    "objGet commonValues key \<noteq> None \<or> parseRegex_exec key \<noteq> None"
  shows "entries_ok c'"
  unfolding entries_ok_def
proof
  fix e assume "e \<in> set (cache c')"
  with assms(2) consider "e = (key, v)" | "e \<in> set (cache c)" by blast
  then show "validLength (fst e) \<and> fst (parse (fst e) parseCache) = Inr (snd e) \<and>
        (objGet commonValues (fst e) \<noteq> None \<or> parseRegex_exec (fst e) \<noteq> None)"
  proof cases
    case 1
    with assms(3,4,5) show ?thesis by simp
  next
    case 2
    with assms(1) show ?thesis unfolding entries_ok_def by blast
  qed
qed

theorem parse_step:
  assumes wf: "cache_wf c" and ok: "entries_ok c"
  shows "fst (parse str c) = fst (parse str parseCache) \<and>
         cache_wf (snd (parse str c)) \<and> entries_ok (snd (parse str c))"
proof (cases "validLength str")
  case False
  with wf ok show ?thesis by (simp add: parse_invalid)
next
  case valid: True
  show ?thesis
  proof (cases "Map_get (cache c) str")
    case (Some v)
    then have "(str, v) \<in> set (cache c)" unfolding Map_get_def by (rule map_of_SomeD)
    with ok have fresh: "fst (parse str parseCache) = Inr v" unfolding entries_ok_def by force
    have p: "parse str c = (Inr v, snd (LRUCache_get str c))"
      using valid Some by (simp add: parse_hit LRUCache_get_hit)
    have "set (cache (snd (LRUCache_get str c))) \<subseteq> set (cache c)"
      using Some \<open>(str, v) \<in> set (cache c)\<close> set_Map_delete[of str "cache c"]
      by (auto simp: LRUCache_get_hit)
    with ok have "entries_ok (snd (LRUCache_get str c))" by (rule entries_ok_subset)
    with p fresh cache_wf_get[OF wf, of str] show ?thesis by simp
  next
    case None
    note miss = None
    show ?thesis
    proof (cases "objGet commonValues str")
      case (Some cv)
      from valid miss Some have p: "parse str c = (Inr cv, LRUCache_set str cv c)"
        by (rule parse_miss_common)
      from valid Some have fresh: "fst (parse str parseCache) = Inr cv"
        by (simp add: parse_miss_common)
      from ok set_cache_set[OF wf] valid fresh have "entries_ok (LRUCache_set str cv c)"
        by (rule entries_ok_insert) (simp add: Some)
      with p fresh cache_wf_set[OF wf] show ?thesis by simp
    next
      case None
      note notcommon = None
      show ?thesis
      proof (cases "parseRegex_exec str")
        case None
        with valid miss notcommon wf ok show ?thesis by (simp add: parse_miss_unmatched)
      next
        case (Some groups)
        show ?thesis
        proof (cases "parseGroups groups str")
          case (Inl err)
          with valid miss notcommon Some wf ok show ?thesis by (simp add: parse_miss_error)
        next
          case (Inr result)
          from valid miss notcommon Some Inr have p: "parse str c = (Inr result, LRUCache_set str result c)"
            by (rule parse_miss_matched)
          from valid notcommon Some Inr have fresh: "fst (parse str parseCache) = Inr result"
            by (simp add: parse_miss_matched)
          from ok set_cache_set[OF wf] valid fresh have "entries_ok (LRUCache_set str result c)"
            by (rule entries_ok_insert) (simp add: Some)
          with p fresh cache_wf_set[OF wf] show ?thesis by simp
        qed
      qed
    qed
  qed
qed

lemma parse_all_inv:
  "cache_wf c \<Longrightarrow> entries_ok c \<Longrightarrow> cache_wf (parse_all strs c) \<and> entries_ok (parse_all strs c)"
  by (induction strs arbitrary: c) (simp_all add: parse_step)

lemma reachable_inv:
  "cache_wf (parse_all strs parseCache) \<and> entries_ok (parse_all strs parseCache)"
  by (rule parse_all_inv[OF cache_wf_parseCache entries_ok_parseCache])

lemma parse_reachable:
  "fst (parse str (parse_all strs parseCache)) = fst (parse str parseCache)"
  using parse_step[of "parse_all strs parseCache" str] reachable_inv[of strs] by simp

lemma maxSize_parse [simp]: "maxSize (snd (parse str c)) = maxSize c"
proof (cases "validLength str")
  case False
  then show ?thesis by (simp add: parse_invalid)
next
  case valid: True
  show ?thesis
  proof (cases "Map_get (cache c) str")
    case (Some v)
    with valid show ?thesis by (simp add: parse_hit)
  next
    case miss: None
    show ?thesis
    proof (cases "objGet commonValues str")
      case (Some cv)
      with valid miss show ?thesis by (simp add: parse_miss_common)
    next
      case notcommon: None
      show ?thesis
      proof (cases "parseRegex_exec str")
        case None
        with valid miss notcommon show ?thesis by (simp add: parse_miss_unmatched)
      next
        case (Some groups)
        with valid miss notcommon show ?thesis
          by (cases "parseGroups groups str") (simp_all add: parse_miss_error parse_miss_matched)
      qed
    qed
  qed
qed

lemma maxSize_parse_all [simp]: "maxSize (parse_all strs c) = maxSize c"
  by (induction strs arbitrary: c) simp_all

section \<open>The formatter on the literal scenarios\<close>

text \<open>
  C3, as the specification states it, fails in its last scenario: 3599999 ms is below one
  hour, so the walk over the thresholds stops at the minute and the verbose form is
  \<open>60 minutes\<close>, not \<open>1 hour\<close>.
\<close>

theorem format_3599999_long_not_1_hour:
  "format (Integer 3599999) (Some \<lparr>long = Some True\<rparr>) \<noteq> Inr ''1 hour''"
  by code_simp

text \<open>
  C3 (amended): \<open>format(3600000)\<close> is \<open>1h\<close>, \<open>format(3600000, {long: true})\<close> is \<open>1 hour\<close>,
  \<open>format(5400000, {long: true})\<close> is \<open>2 hours\<close> and \<open>format(3599999, {long: true})\<close> is
  \<open>60 minutes\<close>.
\<close>

theorem format_literal_scenarios:
  "format (Integer 3600000) None = Inr ''1h'' \<and>
   format (Integer 3600000) (Some \<lparr>long = Some True\<rparr>) = Inr ''1 hour'' \<and>
   format (Integer 5400000) (Some \<lparr>long = Some True\<rparr>) = Inr ''2 hours'' \<and>
   format (Integer 3599999) (Some \<lparr>long = Some True\<rparr>) = Inr ''60 minutes''"
  by code_simp

section \<open>The literal scenarios of parse\<close>

lemma parse_fresh_literals:
  "fst (parse ''1s'' parseCache) = Inr (Num 1000)"
  "fst (parse ''1h'' parseCache) = Inr (Num 3600000)"
  "fst (parse ''1.5h'' parseCache) = Inr (Num 5400000)"
  "fst (parse ''.5h'' parseCache) = Inr (Num 1800000)"
  "fst (parse ''-1h'' parseCache) = Inr (Num (- 3600000))"
  by code_simp+

text \<open>
  C1: whatever calls of \<open>parse\<close> came before, \<open>parse("1s")\<close> is 1000, \<open>parse("1h")\<close> is
  3600000, \<open>parse("1.5h")\<close> is 5400000, \<open>parse(".5h")\<close> is 1800000 and \<open>parse("-1h")\<close> is
  -3600000.
\<close>

theorem parse_literal_scenarios:
  "fst (parse ''1s'' (parse_all strs parseCache)) = Inr (Num 1000) \<and>
   fst (parse ''1h'' (parse_all strs parseCache)) = Inr (Num 3600000) \<and>
   fst (parse ''1.5h'' (parse_all strs parseCache)) = Inr (Num 5400000) \<and>
   fst (parse ''.5h'' (parse_all strs parseCache)) = Inr (Num 1800000) \<and>
   fst (parse ''-1h'' (parse_all strs parseCache)) = Inr (Num (- 3600000))"
  by (simp only: parse_reachable parse_fresh_literals simp_thms)

theorem parse_literal_scenarios_witness:
  "fst (parse ''1s'' (parse_all [''1.5h'', ''abc'', ''1s''] parseCache)) = Inr (Num 1000) \<and>
   fst (parse ''1h'' (parse_all [''1.5h'', ''abc'', ''1s''] parseCache)) = Inr (Num 3600000) \<and>
   fst (parse ''1.5h'' (parse_all [''1.5h'', ''abc'', ''1s''] parseCache)) = Inr (Num 5400000) \<and>
   fst (parse ''.5h'' (parse_all [''1.5h'', ''abc'', ''1s''] parseCache)) = Inr (Num 1800000) \<and>
   fst (parse ''-1h'' (parse_all [''1.5h'', ''abc'', ''1s''] parseCache)) = Inr (Num (- 3600000))"
  by (rule parse_literal_scenarios)

section \<open>The length test\<close>

text \<open>The code raises the invalid-argument error exactly for the lengths 0 and above 100.\<close>

lemma parse_InvalidArgument_iff:
  "(\<exists>x. fst (parse str c) = Inl (InvalidArgument x)) \<longleftrightarrow> length str = 0 \<or> length str > 100"
proof (cases "validLength str")
  case False
  then show ?thesis by (simp add: parse_invalid) (simp add: validLength_def)
next
  case valid: True
  have "fst (parse str c) \<noteq> Inl (InvalidArgument x)" for x
  proof (cases "Map_get (cache c) str")
    case (Some v)
    with valid show ?thesis by (simp add: parse_hit)
  next
    case miss: None
    show ?thesis
    proof (cases "objGet commonValues str")
      case (Some cv)
      with valid miss show ?thesis by (simp add: parse_miss_common)
    next
      case notcommon: None
      show ?thesis
      proof (cases "parseRegex_exec str")
        case None
        with valid miss notcommon show ?thesis by (simp add: parse_miss_unmatched)
      next
        case (Some groups)
        show ?thesis
        proof (cases "parseGroups groups str")
          case (Inl err)
          then have "err \<noteq> InvalidArgument x"
            by (auto simp: parseGroups_def Let_def split: option.splits)
          with Inl valid miss notcommon Some show ?thesis by (simp add: parse_miss_error)
        next
          case (Inr result)
          with valid miss notcommon Some show ?thesis by (simp add: parse_miss_matched)
        qed
      qed
    qed
  qed
  with valid show ?thesis by (simp add: validLength_def)
qed

text \<open>
  C2: the test of the code is \<open>str.length > 100\<close>, although its own error message asks for
  a length between 1 and 99.  A string of 100 characters passes the test: for 100 times
  \<open>a\<close> the call returns \<open>NaN\<close> and raises nothing.
\<close>

theorem parse_accepts_length_100:
  "length (replicate 100 CHR ''a'') = 100 \<and>
   parse (replicate 100 CHR ''a'') parseCache = (Inr NaN, parseCache)"
  by code_simp

section \<open>The fast-path table and the grammar\<close>

lemma grammarPath_common:
  "grammarPath ''1s'' = Inr (Num 1000)"
  "grammarPath ''2s'' = Inr (Num 2000)"
  "grammarPath ''5s'' = Inr (Num 5000)"
  "grammarPath ''10s'' = Inr (Num 10000)"
  "grammarPath ''15s'' = Inr (Num 15000)"
  "grammarPath ''30s'' = Inr (Num 30000)"
  "grammarPath ''1m'' = Inr (Num 60000)"
  "grammarPath ''2m'' = Inr (Num 120000)"
  "grammarPath ''5m'' = Inr (Num 300000)"
  "grammarPath ''10m'' = Inr (Num 600000)"
  "grammarPath ''15m'' = Inr (Num 900000)"
  "grammarPath ''30m'' = Inr (Num 1800000)"
  "grammarPath ''1h'' = Inr (Num 3600000)"
  "grammarPath ''2h'' = Inr (Num 7200000)"
  "grammarPath ''3h'' = Inr (Num 10800000)"
  "grammarPath ''6h'' = Inr (Num 21600000)"
  "grammarPath ''12h'' = Inr (Num 43200000)"
  "grammarPath ''1d'' = Inr (Num 86400000)"
  "grammarPath ''2d'' = Inr (Num 172800000)"
  "grammarPath ''7d'' = Inr (Num 604800000)"
  "grammarPath ''1w'' = Inr (Num 604800000)"
  "grammarPath ''2w'' = Inr (Num 1209600000)"
  "grammarPath ''1mo'' = Inr (Num 2629800000)"
  "grammarPath ''1y'' = Inr (Num 31557600000)"
  "grammarPath ''1 s'' = Inr (Num 1000)"
  "grammarPath ''1 m'' = Inr (Num 60000)"
  "grammarPath ''1 h'' = Inr (Num 3600000)"
  "grammarPath ''1 d'' = Inr (Num 86400000)"
  "grammarPath ''1 w'' = Inr (Num 604800000)"
  "grammarPath ''100'' = Inr (Num 100)"
  "grammarPath ''1000'' = Inr (Num 1000)"
  "grammarPath ''5000'' = Inr (Num 5000)"
  by code_simp+

lemma commonValues_grammarPath:
  "list_all (\<lambda>e. grammarPath (fst e) = Inr (Num (snd e))) commonValues"
  unfolding commonValues_def by (simp only: list.pred_inject fst_conv snd_conv grammarPath_common simp_thms)

lemma commonValues_distinct: "distinct (map fst commonValues)"
  by code_simp

lemma commonValues_entry:
  "map_of commonValues key = Some x \<Longrightarrow> grammarPath key = Inr (Num x)"
proof -
  assume "map_of commonValues key = Some x"
  then have "(key, x) \<in> set commonValues" by (rule map_of_SomeD)
  with commonValues_grammarPath show ?thesis by (auto simp: list_all_iff)
qed

lemma commonValues_matched:
  "map_of commonValues key = Some x \<Longrightarrow> parseRegex_exec key \<noteq> None"
proof
  assume "map_of commonValues key = Some x" "parseRegex_exec key = None"
  then have "Inr NaN = Inr (Num x)"
    using commonValues_entry[of key x] by (simp add: grammarPath_def)
  then show False by simp
qed

lemma objGet_commonValues_None:
  "parseRegex_exec str = None \<Longrightarrow> str \<notin> set objectPrototypeKeys \<Longrightarrow>
   objGet commonValues str = None"
  using commonValues_matched[of str] by (cases "map_of commonValues str") (auto simp: objGet_def)

text \<open>The unit group of a match always resolves in the unit table.\<close>

lemma unitNames_resolve:
  "wd \<in> set unitNames \<Longrightarrow> \<exists>q. objGet unitMultipliers wd = Some (Num q)"
proof -
  assume "wd \<in> set unitNames"
  then have "wd \<in> fst ` set unitMultipliers" by (simp add: unitNames_def)
  then obtain q where "map_of unitMultipliers wd = Some q"
    by (metis domD dom_map_of_conv_image_fst)
  then show ?thesis by (simp add: objGet_def)
qed

lemma ms_resolves: "objGet unitMultipliers (toLowerCase ''ms'') = Some (Num 1)"
  by code_simp

lemma parseGroups_no_error:
  assumes "parseRegex_exec str = Some groups"
  shows "\<exists>result. parseGroups groups x = Inr result"
proof -
  let ?u = "dropWhile isSpace (dropWhile isValueChar str)"
  let ?v = "takeWhile isValueChar str"
  from assms have e: "exec_det str = Some groups" by (simp add: parseRegex_exec_det)
  then have ok: "?u = [] \<or> toLowerCase ?u \<in> set unitNames"
    and g: "groups = (if ?u = [] then [] else [(''unit'', ?u)]) @ [(''value'', ?v)]"
    by (auto simp: exec_det_def Let_def split: if_splits)
  show ?thesis
  proof (cases "?u = []")
    case True
    with g have "map_of groups ''unit'' = None" by simp
    then show ?thesis by (simp add: parseGroups_def ms_resolves)
  next
    case False
    with ok obtain q where "objGet unitMultipliers (toLowerCase ?u) = Some (Num q)"
      using unitNames_resolve by blast
    moreover from False g have "map_of groups ''unit'' = Some ?u" by simp
    ultimately show ?thesis by (simp add: parseGroups_def)
  qed
qed

lemma parse_no_UnknownUnit: "fst (parse str c) \<noteq> Inl (UnknownUnit u x)"
proof (cases "validLength str")
  case False
  then show ?thesis by (simp add: parse_invalid)
next
  case valid: True
  show ?thesis
  proof (cases "Map_get (cache c) str")
    case (Some v)
    with valid show ?thesis by (simp add: parse_hit)
  next
    case miss: None
    show ?thesis
    proof (cases "objGet commonValues str")
      case (Some cv)
      with valid miss show ?thesis by (simp add: parse_miss_common)
    next
      case notcommon: None
      show ?thesis
      proof (cases "parseRegex_exec str")
        case None
        with valid miss notcommon show ?thesis by (simp add: parse_miss_unmatched)
      next
        case (Some groups)
        then obtain result where "parseGroups groups str = Inr result"
          using parseGroups_no_error by blast
        with valid miss notcommon Some show ?thesis by (simp add: parse_miss_matched)
      qed
    qed
  qed
qed

lemma reachable_not_resident:
  assumes "objGet commonValues str = None" "parseRegex_exec str = None"
  shows "Map_get (cache (parse_all strs parseCache)) str = None"
proof (cases "Map_get (cache (parse_all strs parseCache)) str")
  case None
  then show ?thesis .
next
  case (Some v)
  then have "(str, v) \<in> set (cache (parse_all strs parseCache))"
    unfolding Map_get_def by (rule map_of_SomeD)
  with reachable_inv[of strs] have
    "objGet commonValues str \<noteq> None \<or> parseRegex_exec str \<noteq> None"
    unfolding entries_ok_def by force
  with assms show ?thesis by simp
qed

lemma parse_unmatched_reachable:
  assumes "validLength str" "objGet commonValues str = None" "parseRegex_exec str = None"
  shows "parse str (parse_all strs parseCache) = (Inr NaN, parse_all strs parseCache)"
  using assms reachable_not_resident[OF assms(2,3)] by (simp add: parse_miss_unmatched)

text \<open>
  Outside the names that an object literal inherits, a string of valid length that the
  pattern does not match gives \<open>NaN\<close> and leaves the cache as it is.
\<close>

lemma parse_unmatched:
  assumes "validLength str" "parseRegex_exec str = None" "str \<notin> set objectPrototypeKeys"
  shows "parse str (parse_all strs parseCache) = (Inr NaN, parse_all strs parseCache)"
  using assms objGet_commonValues_None by (simp add: parse_unmatched_reachable)

section \<open>The unknown unit\<close>

text \<open>
  C4, as the specification states it, fails: the pattern does not match \<open>5xyz\<close>, so \<open>parse\<close>
  returns \<open>NaN\<close> before it looks at any unit.
\<close>

theorem parse_5xyz_fresh: "parse ''5xyz'' parseCache = (Inr NaN, parseCache)"
  by code_simp

text \<open>
  C4 (amended): \<open>parse("5xyz")\<close> raises nothing; in every cache state that calls of \<open>parse\<close>
  reach it returns \<open>NaN\<close> and leaves the cache as it is.  No call of \<open>parse\<close> raises the
  unknown-unit error at all, since every unit that the pattern accepts is in the unit table.
\<close>

theorem parse_5xyz_NaN:
  "parse ''5xyz'' (parse_all strs parseCache) = (Inr NaN, parse_all strs parseCache) \<and>
   fst (parse str c) \<noteq> Inl (UnknownUnit u x)"
proof
  have "validLength ''5xyz''" "objGet commonValues ''5xyz'' = None" "parseRegex_exec ''5xyz'' = None"
    by code_simp+
  then show "parse ''5xyz'' (parse_all strs parseCache) = (Inr NaN, parse_all strs parseCache)"
    by (rule parse_unmatched_reachable)
  show "fst (parse str c) \<noteq> Inl (UnknownUnit u x)" by (rule parse_no_UnknownUnit)
qed

theorem parse_5xyz_NaN_witness:
  "parse ''5xyz'' (parse_all [''5h'', ''1s''] parseCache) = (Inr NaN, parse_all [''5h'', ''1s''] parseCache) \<and>
   fst (parse ''5xyz'' parseCache) \<noteq> Inl (UnknownUnit ''xyz'' ''5xyz'')"
  by (rule parse_5xyz_NaN)

section \<open>Strings that the pattern does not match\<close>

text \<open>
  C5: \<open>constructor\<close> has a valid length and the pattern does not match it, yet \<open>parse\<close> does
  not return \<open>NaN\<close>: the read \<open>commonValues[str]\<close> finds the member that the object literal
  inherits from \<open>Object.prototype\<close>, and \<open>parse\<close> returns it.
\<close>

theorem parse_constructor_not_NaN:
  "length ''constructor'' = 11 \<and> parseRegex_exec ''constructor'' = None \<and>
   fst (parse ''constructor'' parseCache) = Inr (ProtoMember ''constructor'')"
  by code_simp

text \<open>
  C10: \<open>valueOf\<close> has a valid length and the pattern does not match it, yet \<open>parse\<close> changes
  the cache: it inserts the inherited member under the key \<open>valueOf\<close>, an entry whose value
  is no millisecond count.
\<close>

theorem parse_valueOf_cached:
  "length ''valueOf'' = 7 \<and> parseRegex_exec ''valueOf'' = None \<and>
   parse ''valueOf'' parseCache =
     (Inr (ProtoMember ''valueOf''), parseCache\<lparr>cache := [(''valueOf'', ProtoMember ''valueOf'')]\<rparr>)"
  by code_simp

section \<open>Repeated calls\<close>

text \<open>
  On the empty cache, and so in every reachable cache state, \<open>parse\<close> returns what the
  grammar and the unit table compute, for every string of valid length that is not the
  name of an inherited member.
\<close>

lemma parse_fresh_grammarPath:
  assumes valid: "validLength str" and np: "str \<notin> set objectPrototypeKeys"
  shows "fst (parse str parseCache) = grammarPath str"
proof (cases "map_of commonValues str")
  case (Some x)
  then have "objGet commonValues str = Some (Num x)" by (simp add: objGet_def)
  with valid have "fst (parse str parseCache) = Inr (Num x)" by (simp add: parse_miss_common)
  with Some show ?thesis by (simp add: commonValues_entry)
next
  case None
  with np have nc: "objGet commonValues str = None" by (simp add: objGet_def)
  show ?thesis
  proof (cases "parseRegex_exec str")
    case None
    with valid nc show ?thesis by (simp add: parse_miss_unmatched grammarPath_def)
  next
    case (Some groups)
    with valid nc show ?thesis
      by (cases "parseGroups groups str")
        (simp_all add: parse_miss_error parse_miss_matched grammarPath_def)
  qed
qed

lemma parse_reachable_grammarPath:
  "validLength str \<Longrightarrow> str \<notin> set objectPrototypeKeys \<Longrightarrow>
   fst (parse str (parse_all strs parseCache)) = grammarPath str"
  by (simp add: parse_reachable parse_fresh_grammarPath)

text \<open>
  Whatever calls of \<open>parse\<close> came before, \<open>parse(str)\<close> returns the same value or raises the
  same error, and every entry of the fast-path table holds the value that the grammar and the
  unit table compute for its key.
\<close>

lemma parse_same_result:
  "fst (parse str (parse_all strs parseCache)) = fst (parse str (parse_all strs' parseCache)) \<and>
   (\<forall>e \<in> set commonValues. grammarPath (fst e) = Inr (Num (snd e)))"
  using commonValues_grammarPath by (simp add: parse_reachable list_all_iff)

section \<open>The fast-path table and the cache\<close>

lemma commonValues_validLength: "list_all (\<lambda>e. validLength (fst e)) commonValues"
  by code_simp

lemma maxSize_parseCache [simp]: "maxSize parseCache = 100"
  by (simp add: parseCache_def LRUCache_new_def)

text \<open>
  C6, as the specification states it, fails: \<open>parse\<close> looks into the cache first, and a hit
  in the fast-path table is written into the cache.
\<close>

theorem parse_1s_inserted:
  "cache parseCache = [] \<and> cache (snd (parse ''1s'' parseCache)) = [(''1s'', Num 1000)]"
  by code_simp

text \<open>
  C6 (amended): for a key of the fast-path table, \<open>parse\<close> looks into the cache first.  On a
  miss it returns the value of the table and inserts the key with that value as the most
  recently used entry, evicting the least recently used entry when the cache is full.  On a
  hit it returns the cached value, which is the value of the table, and promotes the entry.
\<close>

theorem parse_fast_path_cached:
  assumes "(key, x) \<in> set commonValues"
  shows "fst (parse key (parse_all strs parseCache)) = Inr (Num x) \<and>
    cache (snd (parse key (parse_all strs parseCache))) =
      (if key \<in> fst ` set (cache (parse_all strs parseCache))
       then Map_delete key (cache (parse_all strs parseCache)) @ [(key, Num x)]
       else if length (cache (parse_all strs parseCache)) < 100
       then cache (parse_all strs parseCache) @ [(key, Num x)]
       else tl (cache (parse_all strs parseCache)) @ [(key, Num x)])"
proof -
  let ?c = "parse_all strs parseCache"
  from assms commonValues_validLength have valid: "validLength key" by (auto simp: list_all_iff)
  from assms commonValues_distinct have "map_of commonValues key = Some x" by simp
  then have common: "objGet commonValues key = Some (Num x)" by (simp add: objGet_def)
  with valid have fresh: "fst (parse key parseCache) = Inr (Num x)" by (simp add: parse_miss_common)
  from reachable_inv[of strs] have wf: "cache_wf ?c" and ok: "entries_ok ?c" by simp_all
  show ?thesis
  proof (cases "Map_get (cache ?c) key")
    case (Some v)
    then have res: "key \<in> fst ` set (cache ?c)" by (rule Map_get_Some_key)
    from Some have "(key, v) \<in> set (cache ?c)" unfolding Map_get_def by (rule map_of_SomeD)
    with ok have "fst (parse key parseCache) = Inr v" unfolding entries_ok_def by force
    with fresh have "v = Num x" by simp
    with valid Some res show ?thesis by (simp add: parse_hit)
  next
    case None
    then have nres: "key \<notin> fst ` set (cache ?c)" by (simp add: Map_get_None_key)
    from valid None common have p: "parse key ?c = (Inr (Num x), LRUCache_set key (Num x) ?c)"
      by (rule parse_miss_common)
    show ?thesis
    proof (cases "length (cache ?c) < 100")
      case True
      with nres p show ?thesis by (simp add: LRUCache_set_room)
    next
      case False
      moreover from wf have "distinct (map fst (cache ?c))" by (simp add: cache_wf_def)
      ultimately show ?thesis using nres p by (simp add: LRUCache_set_full)
    qed
  qed
qed

theorem parse_fast_path_cached_witness:
  "fst (parse ''1s'' (parse_all [''2h'', ''1s'', ''9h''] parseCache)) = Inr (Num 1000) \<and>
   cache (snd (parse ''1s'' (parse_all [''2h'', ''1s'', ''9h''] parseCache))) =
     [(''2h'', Num 7200000), (''9h'', Num 32400000), (''1s'', Num 1000)]"
proof -
  have a: "(''1s'', 1000) \<in> set commonValues" by (simp add: commonValues_def)
  have b: "cache (parse_all [''2h'', ''1s'', ''9h''] parseCache) =
      [(''2h'', Num 7200000), (''1s'', Num 1000), (''9h'', Num 32400000)]" by code_simp
  from parse_fast_path_cached[OF a, of "[''2h'', ''1s'', ''9h'']"] show ?thesis
    unfolding b by simp
qed

section \<open>The capacity and the order of eviction\<close>


lemma maxSize_apply_ops [simp]: "maxSize (apply_ops ops c) = maxSize c"
  by (induction ops c rule: apply_ops.induct) simp_all







section \<open>Spelling variants of a unit\<close>

lemma Unit_rows:
  "list_all (\<lambda>wd. objGet unitMultipliers wd = Some (Num y) \<and> wd \<in> set unitNames) Years"
  "list_all (\<lambda>wd. objGet unitMultipliers wd = Some (Num mo) \<and> wd \<in> set unitNames) Months"
  "list_all (\<lambda>wd. objGet unitMultipliers wd = Some (Num w) \<and> wd \<in> set unitNames) Weeks"
  "list_all (\<lambda>wd. objGet unitMultipliers wd = Some (Num d) \<and> wd \<in> set unitNames) Days"
  "list_all (\<lambda>wd. objGet unitMultipliers wd = Some (Num h) \<and> wd \<in> set unitNames) Hours"
  "list_all (\<lambda>wd. objGet unitMultipliers wd = Some (Num m) \<and> wd \<in> set unitNames) Minutes"
  "list_all (\<lambda>wd. objGet unitMultipliers wd = Some (Num s) \<and> wd \<in> set unitNames) Seconds"
  "list_all (\<lambda>wd. objGet unitMultipliers wd = Some (Num 1) \<and> wd \<in> set unitNames) Milliseconds"
  by code_simp+

lemma Unit_row:
  assumes "row \<in> set Unit"
  shows "\<exists>q. \<forall>wd \<in> set row. objGet unitMultipliers wd = Some (Num q) \<and> wd \<in> set unitNames"
proof -
  from assms consider "row = Years" | "row = Months" | "row = Weeks" | "row = Days"
    | "row = Hours" | "row = Minutes" | "row = Seconds" | "row = Milliseconds"
    by (auto simp: Unit_def)
  then show ?thesis
  proof cases
    case 1 then show ?thesis using Unit_rows(1) unfolding list_all_iff by blast
  next
    case 2 then show ?thesis using Unit_rows(2) unfolding list_all_iff by blast
  next
    case 3 then show ?thesis using Unit_rows(3) unfolding list_all_iff by blast
  next
    case 4 then show ?thesis using Unit_rows(4) unfolding list_all_iff by blast
  next
    case 5 then show ?thesis using Unit_rows(5) unfolding list_all_iff by blast
  next
    case 6 then show ?thesis using Unit_rows(6) unfolding list_all_iff by blast
  next
    case 7 then show ?thesis using Unit_rows(7) unfolding list_all_iff by blast
  next
    case 8 then show ?thesis using Unit_rows(8) unfolding list_all_iff by blast
  qed
qed

lemma bare_magnitude:
  assumes "parseRegex_exec v = Some [(''value'', v)]"
  shows "isValue v"
proof -
  let ?t = "takeWhile isValueChar v"
  from assms have e: "exec_det v = Some [(''value'', v)]" by (simp add: parseRegex_exec_det)
  then have iv: "isValue ?t"
    unfolding exec_det_def Let_def by (simp split: if_splits)
  from e have "last ((if dropWhile isSpace (dropWhile isValueChar v) = [] then []
      else [(''unit'', dropWhile isSpace (dropWhile isValueChar v))]) @ [(''value'', ?t)]) =
      last [(''value'', v)]"
    unfolding exec_det_def Let_def by (simp split: if_splits del: takeWhile_eq_all_conv)
  then have "?t = v" by (simp del: takeWhile_eq_all_conv)
  with iv show ?thesis by (simp del: takeWhile_eq_all_conv)
qed

lemma parseFloat_isValue:
  assumes "isValue v"
  shows "\<exists>p. parseFloat v = Num p"
proof -
  define body where "body = (case v of [] \<Rightarrow> [] | c # cs \<Rightarrow> if c = CHR ''-'' then cs else v)"
  define fp where "fp = (case dropWhile isDigit body of [] \<Rightarrow> []
      | c # cs \<Rightarrow> if c = CHR ''.'' then takeWhile isDigit cs else [])"
  have b: "(if (case v of [] \<Rightarrow> False | c # _ \<Rightarrow> c = CHR ''-'') then tl v else v) = body"
    unfolding body_def by (cases v) simp_all
  have pf: "parseFloat v =
      (if takeWhile isDigit body = [] \<and> fp = [] then NaN
       else Num ((if (case v of [] \<Rightarrow> False | c # _ \<Rightarrow> c = CHR ''-'') then - 1 else 1) *
                 (digitsValue (takeWhile isDigit body) + digitsValue fp / 10 ^ length fp)))"
    unfolding parseFloat_def Let_def b fp_def by (rule refl)
  from assms have ib: "isBody body" unfolding body_def by (simp add: isValue_isBody)
  have "takeWhile isDigit body \<noteq> [] \<or> fp \<noteq> []"
  proof (cases "dropWhile isDigit body")
    case Nil
    with takeWhile_dropWhile_id[of isDigit body] have "takeWhile isDigit body @ [] = body"
      by (simp only:)
    moreover from ib have "body \<noteq> []" by (simp add: isBody_def)
    ultimately have "takeWhile isDigit body \<noteq> []" by (simp del: takeWhile_eq_all_conv)
    then show ?thesis ..
  next
    case (Cons c cs)
    with ib have "c = CHR ''.''" "cs \<noteq> []" "list_all isDigit cs" by (simp_all add: isBody_def)
    then have "fp \<noteq> []" unfolding fp_def Cons by (cases cs) auto
    then show ?thesis ..
  qed
  then show ?thesis unfolding pf by auto
qed

lemma prototype_key_hd:
  "str \<in> set objectPrototypeKeys \<Longrightarrow> str \<noteq> [] \<and> \<not> isValueChar (hd str)"
  by (auto simp: objectPrototypeKeys_def isValueChar_def isDigit_def less_eq_char_def)

lemma exec_det_spelling:
  assumes v: "isValue v" and u: "toLowerCase u \<in> set unitNames"
  shows "exec_det (v @ replicate n CHR '' '' @ u) = Some [(''unit'', u), (''value'', v)]"
proof -
  from v have vc: "list_all isValueChar v" by (simp add: isValue_chars)
  have sp: "list_all isSpace (replicate n CHR '' '')" by (simp add: list_all_iff isSpace_def)
  from unit_hd[OF u] have hd: "u = [] \<or> (\<not> isValueChar (hd u) \<and> \<not> isSpace (hd u))"
    and ne: "u \<noteq> []" by simp_all
  from decomp_unique[OF vc sp hd] v u ne show ?thesis by (simp add: exec_det_def)
qed

lemma grammarPath_spelling:
  assumes v: "parseFloat v = Num p" "isValue v" and u: "toLowerCase u \<in> set unitNames"
    and q: "objGet unitMultipliers (toLowerCase u) = Some (Num q)"
  shows "grammarPath (v @ replicate n CHR '' '' @ u) = Inr (Num (p * q))"
  using v(1) q
  by (simp add: grammarPath_def parseRegex_exec_det exec_det_spelling[OF v(2) u] parseGroups_def)

lemma parse_spelling:
  assumes v: "parseFloat v = Num p" "isValue v" and u: "toLowerCase u \<in> set unitNames"
    and q: "objGet unitMultipliers (toLowerCase u) = Some (Num q)"
    and len: "length (v @ replicate n CHR '' '' @ u) \<le> 100"
  shows "fst (parse (v @ replicate n CHR '' '' @ u) (parse_all strs parseCache)) = Inr (Num (p * q))"
proof -
  let ?str = "v @ replicate n CHR '' '' @ u"
  from v(2) have ne: "v \<noteq> []" and vc: "list_all isValueChar v" by (simp_all add: isValue_chars)
  from ne len have valid: "validLength ?str" by (simp add: validLength_def)
  from ne vc have "isValueChar (hd ?str)" by (cases v) simp_all
  then have "?str \<notin> set objectPrototypeKeys" using prototype_key_hd[of ?str] by blast
  with valid have "fst (parse ?str (parse_all strs parseCache)) = grammarPath ?str"
    by (rule parse_reachable_grammarPath)
  with grammarPath_spelling[OF v u q] show ?thesis by simp
qed

text \<open>
  C9: let \<open>v\<close> be a magnitude that the pattern accepts, and \<open>u1\<close>, \<open>u2\<close> two spellings of the
  same unit, in any letter case, each after any number of spaces.  Then \<open>parse\<close> returns the
  same number for both strings, whatever calls of \<open>parse\<close> came before.
\<close>

theorem parse_unit_spellings:
  assumes "parseRegex_exec v = Some [(''value'', v)]"
    and "row \<in> set Unit" "toLowerCase u1 \<in> set row" "toLowerCase u2 \<in> set row"
    and "length (v @ replicate n1 CHR '' '' @ u1) \<le> 100"
    and "length (v @ replicate n2 CHR '' '' @ u2) \<le> 100"
  shows "fst (parse (v @ replicate n1 CHR '' '' @ u1) (parse_all strs1 parseCache)) =
         fst (parse (v @ replicate n2 CHR '' '' @ u2) (parse_all strs2 parseCache)) \<and>
         (\<exists>r. fst (parse (v @ replicate n1 CHR '' '' @ u1) (parse_all strs1 parseCache)) = Inr (Num r))"
proof -
  from assms(1) have iv: "isValue v" by (rule bare_magnitude)
  then obtain p where p: "parseFloat v = Num p" using parseFloat_isValue by blast
  from Unit_row[OF assms(2)] obtain q where
    row: "\<And>wd. wd \<in> set row \<Longrightarrow> objGet unitMultipliers wd = Some (Num q) \<and> wd \<in> set unitNames"
    by blast
  from row[OF assms(3)] have 1:
    "fst (parse (v @ replicate n1 CHR '' '' @ u1) (parse_all strs1 parseCache)) = Inr (Num (p * q))"
    using parse_spelling[OF p iv _ _ assms(5)] by blast
  from row[OF assms(4)] have 2:
    "fst (parse (v @ replicate n2 CHR '' '' @ u2) (parse_all strs2 parseCache)) = Inr (Num (p * q))"
    using parse_spelling[OF p iv _ _ assms(6)] by blast
  from 1 2 show ?thesis by simp
qed

theorem parse_unit_spellings_witness:
  "fst (parse ''2h'' (parse_all [''2h'', ''1s''] parseCache)) = fst (parse ''2 HOURS'' parseCache) \<and>
   fst (parse ''2hours'' (parse_all [''abc''] parseCache)) = fst (parse ''2 HOURS'' parseCache) \<and>
   (\<exists>r. fst (parse ''2h'' (parse_all [''2h'', ''1s''] parseCache)) = Inr (Num r))"
proof -
  have a: "parseRegex_exec ''2'' = Some [(''value'', ''2'')]" by code_simp
  have b: "Hours \<in> set Unit" by (simp add: Unit_def)
  have c: "toLowerCase ''h'' \<in> set Hours" "toLowerCase ''HOURS'' \<in> set Hours"
    "toLowerCase ''hours'' \<in> set Hours" by code_simp+
  have 1: "length (''2'' @ replicate 0 CHR '' '' @ ''h'') \<le> 100"
    and 2: "length (''2'' @ replicate 1 CHR '' '' @ ''HOURS'') \<le> 100"
    and 3: "length (''2'' @ replicate 0 CHR '' '' @ ''hours'') \<le> 100" by simp_all
  have s: "''2'' @ replicate 0 CHR '' '' @ ''h'' = ''2h''"
    "''2'' @ replicate 1 CHR '' '' @ ''HOURS'' = ''2 HOURS''"
    "''2'' @ replicate 0 CHR '' '' @ ''hours'' = ''2hours''"
    "parse_all [] parseCache = parseCache" by simp_all
  note t1 = parse_unit_spellings[OF a b c(1) c(2) 1 2, of "[''2h'', ''1s'']" "[]", unfolded s]
  note t2 = parse_unit_spellings[OF a b c(3) c(2) 3 2, of "[''abc'']" "[]", unfolded s]
  from t1 t2 show ?thesis by blast
qed

section \<open>Resident values\<close>

lemma parseGroups_Num:
  assumes "parseRegex_exec str = Some groups"
  shows "\<exists>r. parseGroups groups x = Inr (Num r)"
proof -
  let ?u = "dropWhile isSpace (dropWhile isValueChar str)"
  let ?v = "takeWhile isValueChar str"
  from assms have e: "exec_det str = Some groups" by (simp add: parseRegex_exec_det)
  then have iv: "isValue ?v" and ok: "?u = [] \<or> toLowerCase ?u \<in> set unitNames"
    and g: "groups = (if ?u = [] then [] else [(''unit'', ?u)]) @ [(''value'', ?v)]"
    by (auto simp: exec_det_def Let_def split: if_splits)
  from iv obtain p where p: "parseFloat ?v = Num p" using parseFloat_isValue by blast
  from g have val: "map_of groups ''value'' = Some ?v" by simp
  show ?thesis
  proof (cases "?u = []")
    case True
    with g have "map_of groups ''unit'' = None" by simp
    with val p show ?thesis by (simp add: parseGroups_def ms_resolves)
  next
    case False
    with ok obtain q where "objGet unitMultipliers (toLowerCase ?u) = Some (Num q)"
      using unitNames_resolve by blast
    moreover from False g have "map_of groups ''unit'' = Some ?u" by simp
    ultimately show ?thesis using val p by (simp add: parseGroups_def)
  qed
qed

text \<open>
  The sentinel \<open>NaN\<close> is never resident: a resident value is a number, or the inherited
  member that the fast-path lookup found.
\<close>

lemma resident_not_NaN:
  assumes "(key, v) \<in> set (cache (parse_all strs parseCache))"
  shows "v \<noteq> NaN"
proof -
  from assms reachable_inv[of strs] have valid: "validLength key"
    and fresh: "fst (parse key parseCache) = Inr v"
    and src: "objGet commonValues key \<noteq> None \<or> parseRegex_exec key \<noteq> None"
    unfolding entries_ok_def by force+
  show ?thesis
  proof (cases "objGet commonValues key")
    case (Some cv)
    with valid fresh have "v = cv" by (simp add: parse_miss_common)
    with Some show ?thesis by (auto simp: objGet_def split: option.splits if_splits)
  next
    case None
    with src obtain groups where g: "parseRegex_exec key = Some groups" by auto
    then obtain r where "parseGroups groups key = Inr (Num r)" using parseGroups_Num by blast
    with valid None g fresh have "v = Num r" by (simp add: parse_miss_matched)
    then show ?thesis by simp
  qed
qed

section \<open>The result and the grammar\<close>

lemma matched_not_prototype_key:
  assumes "parseRegex_exec str \<noteq> None"
  shows "str \<notin> set objectPrototypeKeys"
proof
  assume key: "str \<in> set objectPrototypeKeys"
  from assms have "isValue (takeWhile isValueChar str)"
    by (auto simp: parseRegex_exec_det exec_det_def Let_def split: if_splits)
  then have "takeWhile isValueChar str \<noteq> []" by (simp add: isValue_chars)
  then have "str \<noteq> [] \<and> isValueChar (hd str)" by (cases str) (auto split: if_splits)
  with prototype_key_hd[OF key] show False by simp
qed

text \<open>
  For every string of valid length that the pattern matches, \<open>parse\<close> returns in every
  reachable cache state what the grammar and the unit table compute.
\<close>

lemma parse_matched_grammarPath:
  "validLength str \<Longrightarrow> parseRegex_exec str \<noteq> None \<Longrightarrow>
   fst (parse str (parse_all strs parseCache)) = grammarPath str"
  by (simp add: parse_reachable_grammarPath matched_not_prototype_key)


end
